theory Spec2Isabelle
  imports Main "HOL-Library.Char_ord" "HOL-Library.List_Lexorder" "HOL-Library.AList"
begin

section \<open>The requirements consolidation script\<close>

text \<open>
  A shallow embedding of \<^verbatim>\<open>scripts/consolidate_node_requirements.py\<close>.
  The script reads a JSON list of repositories, fetches each repository's
  \<^verbatim>\<open>requirements.txt\<close>, follows \<^verbatim>\<open>git+\<close> lines into further repositories,
  merges the version specifiers per package name and writes one sorted file.

  What the script takes from outside (the network and the libraries
  \<^verbatim>\<open>requests\<close>, \<^verbatim>\<open>packaging\<close>, \<^verbatim>\<open>urllib.parse\<close>) is a record of
  functions, \<open>env\<close>; the three containers the script mutates are a record, \<open>state\<close>,
  passed through every call and returned updated. A Python \<^verbatim>\<open>str\<close> is a
  \<open>string\<close>, one \<open>char\<close> per code point (code points below 256).
\<close>

subsection \<open>String methods\<close>

definition isspace :: "char \<Rightarrow> bool" where
  \<comment> \<open>the code points below 256 for which \<^verbatim>\<open>str.isspace\<close> holds\<close>
  "isspace c = (c \<in> set [CHR 0x09, CHR 0x0A, CHR 0x0B, CHR 0x0C, CHR 0x0D,
     CHR 0x1C, CHR 0x1D, CHR 0x1E, CHR 0x1F, CHR 0x20, CHR 0x85, CHR 0xA0])"

definition strip :: "string \<Rightarrow> string" where
  \<comment> \<open>\<^verbatim>\<open>s.strip()\<close>\<close>
  "strip s = rev (dropWhile isspace (rev (dropWhile isspace s)))"

definition strip_char :: "char \<Rightarrow> string \<Rightarrow> string" where
  \<comment> \<open>\<^verbatim>\<open>s.strip(c)\<close> for a one-character argument\<close>
  "strip_char c s = rev (dropWhile (\<lambda>x. x = c) (rev (dropWhile (\<lambda>x. x = c) s)))"

definition startswith :: "string \<Rightarrow> string \<Rightarrow> bool" where
  "startswith s p = (take (length p) s = p)"

definition endswith :: "string \<Rightarrow> string \<Rightarrow> bool" where
  "endswith s p = (length p \<le> length s \<and> drop (length s - length p) s = p)"

fun split :: "char \<Rightarrow> string \<Rightarrow> string list" where
  \<comment> \<open>\<^verbatim>\<open>s.split(sep)\<close> for a one-character separator: never an empty list\<close>
  "split sep [] = [[]]"
| "split sep (c # cs) =
     (if c = sep then [] # split sep cs
      else (case split sep cs of [] \<Rightarrow> [[c]] | w # ws \<Rightarrow> (c # w) # ws))"

definition is_linebreak :: "char \<Rightarrow> bool" where
  \<comment> \<open>the line boundaries of \<^verbatim>\<open>str.splitlines\<close> below code point 256\<close>
  "is_linebreak c = (c \<in> set [CHR 0x0A, CHR 0x0B, CHR 0x0C, CHR 0x0D,
     CHR 0x1C, CHR 0x1D, CHR 0x1E, CHR 0x85])"

fun splitlines_from :: "string \<Rightarrow> string \<Rightarrow> string list" where
  \<comment> \<open>the first argument is the line read so far; CR LF is one boundary\<close>
  "splitlines_from cur [] = (if cur = [] then [] else [cur])"
| "splitlines_from cur [c] = (if is_linebreak c then [cur] else [cur @ [c]])"
| "splitlines_from cur (c # d # cs) =
     (if c = CHR 0x0D \<and> d = CHR 0x0A then cur # splitlines_from [] cs
      else if is_linebreak c then cur # splitlines_from [] (d # cs)
      else splitlines_from (cur @ [c]) (d # cs))"

definition splitlines :: "string \<Rightarrow> string list" where
  "splitlines s = splitlines_from [] s"

function replace :: "string \<Rightarrow> string \<Rightarrow> string \<Rightarrow> string" where
  \<comment> \<open>\<^verbatim>\<open>s.replace(old, new)\<close> for a non-empty \<open>old\<close>: every occurrence, left to right\<close>
  "replace old new s =
     (if s = [] then []
      else if old \<noteq> [] \<and> startswith s old then new @ replace old new (drop (length old) s)
      else hd s # replace old new (tl s))"
  by pat_completeness auto
termination
  by (relation "measure (\<lambda>(old, new, s). length s)") auto

declare replace.simps [simp del]

fun join :: "string \<Rightarrow> string list \<Rightarrow> string" where
  \<comment> \<open>\<^verbatim>\<open>sep.join(xs)\<close>\<close>
  "join sep [] = []"
| "join sep [x] = x"
| "join sep (x # y # ys) = x @ sep @ join sep (y # ys)"

definition lower_char :: "char \<Rightarrow> char" where
  \<comment> \<open>A to Z, and the upper-case letters of Latin-1 (0xC0 to 0xDE without 0xD7)\<close>
  "lower_char c =
     (let n = (of_char c :: nat)
      in if (65 \<le> n \<and> n \<le> 90) \<or> (192 \<le> n \<and> n \<le> 222 \<and> n \<noteq> 215)
         then char_of (n + 32) else c)"

definition lower :: "string \<Rightarrow> string" where
  "lower s = map lower_char s"

subsection \<open>Decoded JSON\<close>

datatype json =
    JNull
  | JBool bool
  | JNum int
  | JStr string
  | JArr "json list"
  | JObj "(string \<times> json) list"

text \<open>
  A decoded document: \<open>JNull\<close> is Python's \<^verbatim>\<open>None\<close>, \<open>JObj\<close> a \<^verbatim>\<open>dict\<close> given by
  its items (keys distinct), so that \<^verbatim>\<open>d.get(k)\<close> is \<open>map_of d k\<close>. Numbers are
  integers only.
\<close>

fun truthy :: "json \<Rightarrow> bool" where
  "truthy JNull = False"
| "truthy (JBool b) = b"
| "truthy (JNum n) = (n \<noteq> 0)"
| "truthy (JStr s) = (s \<noteq> [])"
| "truthy (JArr xs) = (xs \<noteq> [])"
| "truthy (JObj kvs) = (kvs \<noteq> [])"

subsection \<open>Version specifiers\<close>

text \<open>
  \<^verbatim>\<open>packaging.specifiers.SpecifierSet\<close> keeps a frozen set of clauses such as
  \<^verbatim>\<open>>=1.0\<close>. Its \<^verbatim>\<open>&\<close> builds the set holding the clauses of both operands, its
  \<^verbatim>\<open>str\<close> joins the sorted clauses with commas, its truth value is that of its
  length, and a version is in the set when every clause admits it. A clause is
  modelled by its text; when a clause admits a version is left open (the
  parameter \<open>admits\<close>), and the library's special treatment of pre-release
  versions is not modelled.
\<close>

type_synonym specifier_set = "string set"

definition specifier_and :: "specifier_set \<Rightarrow> specifier_set \<Rightarrow> specifier_set" where
  "specifier_and a b = a \<union> b"

definition specifier_str :: "specifier_set \<Rightarrow> string" where
  "specifier_str s = join '','' (sorted_list_of_set s)"

definition contains :: "(string \<Rightarrow> 'v \<Rightarrow> bool) \<Rightarrow> specifier_set \<Rightarrow> 'v \<Rightarrow> bool" where
  "contains admits s v = (\<forall>c \<in> s. admits c v)"

datatype requirement =
    Requirement string specifier_set
  | InvalidRequirement
  | OtherException

text \<open>
  The three ways \<^verbatim>\<open>Requirement(req_line)\<close> can end: an object with a name and a
  specifier, \<^verbatim>\<open>InvalidRequirement\<close>, or any other exception.
\<close>

subsection \<open>The environment\<close>

datatype response =
    ConnectionError
  | Response nat string "json option"

text \<open>
  \<^verbatim>\<open>requests.get\<close> either raises (\<open>ConnectionError\<close>) or returns a response with
  its \<^verbatim>\<open>status_code\<close>, its \<^verbatim>\<open>text\<close> and what \<^verbatim>\<open>response.json()\<close> gives
  (\<open>None\<close> when it raises). The \<^verbatim>\<open>headers\<close> argument is the empty dictionary
  throughout and is left out.
\<close>

record env =
  http_get :: "string \<Rightarrow> response"
  parse_requirement :: "string \<Rightarrow> requirement"
  url_path :: "string \<Rightarrow> string option"
  urljoin :: "string \<Rightarrow> string \<Rightarrow> string option"
  str_of :: "json \<Rightarrow> string"

text \<open>
  \<open>url_path u\<close> is \<^verbatim>\<open>urlparse(u).path\<close> and \<open>urljoin b r\<close> is
  \<^verbatim>\<open>urljoin(b, r)\<close>; both are \<open>None\<close> when the library raises \<^verbatim>\<open>ValueError\<close>
  (as it does on \<^verbatim>\<open>https://[\<close>). \<open>str_of\<close> is the text an f-string gives for a
  decoded JSON value that is not a string.
\<close>

subsection \<open>The state\<close>

type_synonym repo_commit_key = "string \<times> string option"

datatype message =
    InvalidRepositoryURL string
  | FailedDefaultBranch string nat
  | ErrorDefaultBranch string
  | SkippingRepository string
  | UnexpectedParseError string string
  | NoRequirementsFound string string nat
  | ErrorFetchingRequirements string
  | InvalidRepositoryEntry json
  | ErrorReadingJSON
  | Generated

datatype event =
    MarkVisited repo_commit_key
  | GetRepoInfo string
  | GetManifest repo_commit_key string
  | Print message

text \<open>
  \<open>trace\<close> is the history of a run, newest event first: every key added to
  \<^verbatim>\<open>visited_repos\<close>, every HTTP request (the request for a manifest together with
  the key it is made for) and every line printed. It is not a variable of the
  script; the claims about fetching and logging are stated on it.
\<close>

record state =
  dependency_dict :: "(string \<times> specifier_set) list"
  url_requirements :: "string set"
  visited_repos :: "repo_commit_key set"
  trace :: "event list"

definition emit :: "event \<Rightarrow> state \<Rightarrow> state" where
  "emit ev st = st\<lparr>trace := ev # trace st\<rparr>"

definition initial_state :: state where
  "initial_state = \<lparr>dependency_dict = [], url_requirements = {}, visited_repos = {}, trace = []\<rparr>"

datatype 'a result = Return 'a | Raise

text \<open>\<open>Raise\<close>: an exception leaves the function and reaches its caller.\<close>

subsection \<open>get_default_branch\<close>

definition api_url :: "string \<Rightarrow> string \<Rightarrow> string" where
  "api_url owner repo_name = ''https://api.github.com/repos/'' @ owner @ ''/'' @ repo_name"

definition get_default_branch :: "env \<Rightarrow> string \<Rightarrow> state \<Rightarrow> json result \<times> state" where
  "get_default_branch e repo_url st =
     (case url_path e repo_url of
        None \<Rightarrow> (Raise, st)
      | Some path \<Rightarrow>
          (let path_parts = split (CHR ''/'') (strip_char (CHR ''/'') path)
           in if length path_parts < 2
              then (Return JNull, emit (Print (InvalidRepositoryURL repo_url)) st)
              else
                (let owner = path_parts ! 0;
                     repo_name = path_parts ! 1;
                     st1 = emit (GetRepoInfo (api_url owner repo_name)) st
                 in case http_get e (api_url owner repo_name) of
                      ConnectionError \<Rightarrow>
                        (Return (JStr ''main''), emit (Print (ErrorDefaultBranch repo_url)) st1)
                    | Response status_code text js \<Rightarrow>
                        if status_code = 200
                        then (case js of
                                Some (JObj repo_info) \<Rightarrow>
                                  (Return (case map_of repo_info ''default_branch'' of
                                             Some v \<Rightarrow> v | None \<Rightarrow> JStr ''main''), st1)
                              | _ \<Rightarrow>
                                  (Return (JStr ''main''),
                                   emit (Print (ErrorDefaultBranch repo_url)) st1))
                        else (Return (JStr ''main''),
                              emit (Print (FailedDefaultBranch repo_url status_code)) st1))))"

subsection \<open>parse_git_requirement\<close>

text \<open>
  \<^verbatim>\<open>re.match\<close> of \<^verbatim>\<open>git\+(https://[^@]+)(?:@([^#]+))?(?:#egg=([\w\d\.]+))?\<close>: the
  first group takes every character up to the first \<^verbatim>\<open>@\<close> and needs one at least;
  the second is there when an \<^verbatim>\<open>@\<close> follows with a character other than \<^verbatim>\<open>#\<close>
  after it. Both optional groups may match nothing and the pattern is not anchored
  at the end, so the match fails only when the first group does. \<open>None\<close> is the
  pair \<^verbatim>\<open>(None, None)\<close>.
\<close>

definition parse_git_requirement :: "string \<Rightarrow> (string \<times> string option) option" where
  "parse_git_requirement req_line =
     (if startswith req_line ''git+https://''
      then
        (let rest = drop (length ''git+https://'') req_line;
             host = takeWhile (\<lambda>c. c \<noteq> CHR ''@'') rest;
             after = dropWhile (\<lambda>c. c \<noteq> CHR ''@'') rest
         in if host = [] then None
            else
              (let repo_url = ''https://'' @ host;
                   rev = takeWhile (\<lambda>c. c \<noteq> CHR ''#'') (tl after);
                   commit_hash = (if after \<noteq> [] \<and> rev \<noteq> [] then Some rev else None)
               in if endswith repo_url ''.git''
                  then Some (take (length repo_url - 4) repo_url, commit_hash)
                  else Some (repo_url, commit_hash)))
      else None)"

subsection \<open>process_requirements_from_repo\<close>

definition merge_requirement ::
  "string \<Rightarrow> specifier_set \<Rightarrow> (string \<times> specifier_set) list \<Rightarrow> (string \<times> specifier_set) list"
where
  \<comment> \<open>lines 65 to 74: the name is lowered, then merged or inserted\<close>
  "merge_requirement req_name specifier dd =
     (let name = lower req_name
      in case map_of dd name of
           Some existing_specifier \<Rightarrow> AList.update name (specifier_and existing_specifier specifier) dd
         | None \<Rightarrow> AList.update name specifier dd)"

definition url_in_visited :: "string \<Rightarrow> repo_commit_key set \<Rightarrow> bool" where
  \<comment> \<open>line 80 asks whether the bare URL is in \<^verbatim>\<open>visited_repos\<close>, which holds pairs only\<close>
  "url_in_visited git_repo_url visited = False"

type_synonym recursion = "string \<Rightarrow> string option \<Rightarrow> state \<Rightarrow> (unit result \<times> state) option"

definition process_line :: "recursion \<Rightarrow> env \<Rightarrow> string \<Rightarrow> string \<Rightarrow> state \<Rightarrow> (unit result \<times> state) option" where
  \<comment> \<open>the body of the loop over the lines, lines 60 to 86; \<open>recurse\<close> is the call of line 81\<close>
  "process_line recurse e repo_url raw_line st =
     (let req_line = strip raw_line
      in if req_line = [] \<or> startswith req_line ''#'' then Some (Return (), st)
         else
           (case parse_requirement e req_line of
              Requirement req_name specifier \<Rightarrow>
                Some (Return (),
                      st\<lparr>dependency_dict := merge_requirement req_name specifier (dependency_dict st)\<rparr>)
            | InvalidRequirement \<Rightarrow>
                if startswith req_line ''git+''
                then (case parse_git_requirement req_line of
                        Some (git_repo_url, git_commit) \<Rightarrow>
                          if git_repo_url \<noteq> [] \<and> \<not> url_in_visited git_repo_url (visited_repos st)
                          then recurse git_repo_url git_commit st
                          else Some (Return (), st)
                      | None \<Rightarrow> Some (Return (), st))
                else Some (Return (), st\<lparr>url_requirements := insert req_line (url_requirements st)\<rparr>)
            | OtherException \<Rightarrow>
                Some (Return (), emit (Print (UnexpectedParseError req_line repo_url)) st)))"

fun process_lines :: "recursion \<Rightarrow> env \<Rightarrow> string \<Rightarrow> string list \<Rightarrow> state \<Rightarrow> (unit result \<times> state) option" where
  "process_lines recurse e repo_url [] st = Some (Return (), st)"
| "process_lines recurse e repo_url (l # ls) st =
     (case process_line recurse e repo_url l st of
        None \<Rightarrow> None
      | Some (Raise, st') \<Rightarrow> Some (Raise, st')
      | Some (Return u, st') \<Rightarrow> process_lines recurse e repo_url ls st')"

definition raw_requirements_url :: "env \<Rightarrow> string \<Rightarrow> string \<Rightarrow> string option" where
  \<comment> \<open>lines 52 and 53; \<open>None\<close> when \<^verbatim>\<open>urljoin\<close> raises\<close>
  "raw_requirements_url e repo_url commit_hash =
     (let raw_base_url = replace ''github.com'' ''raw.githubusercontent.com'' repo_url
      in urljoin e (raw_base_url @ ''/'') (commit_hash @ ''/requirements.txt''))"

definition fetch_requirements ::
  "recursion \<Rightarrow> env \<Rightarrow> string \<Rightarrow> string option \<Rightarrow> string \<Rightarrow> state \<Rightarrow> (unit result \<times> state) option"
where
  \<comment> \<open>lines 51 to 93, with the commit or branch resolved; \<open>key_commit\<close> is the commit
      as the function received it, kept for the trace only\<close>
  "fetch_requirements recurse e repo_url key_commit commit_hash st =
     (case raw_requirements_url e repo_url commit_hash of
        None \<Rightarrow> Some (Raise, st)
      | Some raw_url \<Rightarrow>
          (let st1 = emit (GetManifest (repo_url, key_commit) raw_url) st
           in case http_get e raw_url of
                ConnectionError \<Rightarrow>
                  Some (Return (), emit (Print (ErrorFetchingRequirements repo_url)) st1)
              | Response status_code text js \<Rightarrow>
                  if status_code = 200
                  then (case process_lines recurse e repo_url (splitlines text) st1 of
                          None \<Rightarrow> None
                        | Some (Raise, st2) \<Rightarrow>
                            Some (Return (), emit (Print (ErrorFetchingRequirements repo_url)) st2)
                        | Some (Return u, st2) \<Rightarrow> Some (Return (), st2))
                  else Some (Return (),
                             emit (Print (NoRequirementsFound repo_url commit_hash status_code)) st1)))"

definition format_commit :: "env \<Rightarrow> json \<Rightarrow> string" where
  "format_commit e v = (case v of JStr s \<Rightarrow> s | _ \<Rightarrow> str_of e v)"

definition visit_repo ::
  "recursion \<Rightarrow> env \<Rightarrow> string \<Rightarrow> string option \<Rightarrow> state \<Rightarrow> (unit result \<times> state) option"
where
  \<comment> \<open>lines 33 to 93; \<open>recurse\<close> stands for the function itself\<close>
  "visit_repo recurse e repo_url commit_hash st =
     (if repo_url = [] then Some (Return (), st)
      else
        (let repo_commit_key = (repo_url, commit_hash)
         in if repo_commit_key \<in> visited_repos st then Some (Return (), st)
            else
              (let st1 = emit (MarkVisited repo_commit_key)
                           (st\<lparr>visited_repos := insert repo_commit_key (visited_repos st)\<rparr>)
               in if commit_hash = None \<or> commit_hash = Some []
                  then (case get_default_branch e repo_url st1 of
                          (Raise, st2) \<Rightarrow> Some (Raise, st2)
                        | (Return branch, st2) \<Rightarrow>
                            if \<not> truthy branch
                            then Some (Return (), emit (Print (SkippingRepository repo_url)) st2)
                            else fetch_requirements recurse e repo_url commit_hash
                                   (format_commit e branch) st2)
                  else fetch_requirements recurse e repo_url commit_hash (the commit_hash) st1)))"

primrec process_requirements_from_repo ::
  "nat \<Rightarrow> env \<Rightarrow> string \<Rightarrow> string option \<Rightarrow> state \<Rightarrow> (unit result \<times> state) option"
where
  "process_requirements_from_repo 0 = (\<lambda>e repo_url commit_hash st. None)"
| "process_requirements_from_repo (Suc fuel) =
     (\<lambda>e. visit_repo (\<lambda>u c. process_requirements_from_repo fuel e u c) e)"

text \<open>
  The first argument bounds the depth of the recursion (Python's own call stack
  is bounded too; its limit is not modelled). \<open>None\<close> means that the bound was
  reached.
\<close>

subsection \<open>consolidate_requirements\<close>

definition entry_commit :: "(string \<times> json) list \<Rightarrow> string option" where
  \<comment> \<open>line 132, \<^verbatim>\<open>repo.get("commit", "").strip()\<close>: \<open>None\<close> when the value is no
      string, where \<^verbatim>\<open>.strip\<close> raises \<^verbatim>\<open>AttributeError\<close>\<close>
  "entry_commit items =
     (case map_of items ''commit'' of
        None \<Rightarrow> Some (strip [])
      | Some (JStr c) \<Rightarrow> Some (strip c)
      | Some _ \<Rightarrow> None)"

definition process_entry :: "nat \<Rightarrow> env \<Rightarrow> json \<Rightarrow> state \<Rightarrow> (unit result \<times> state) option" where
  \<comment> \<open>the body of the loop of lines 130 to 137. An entry that is no dictionary
      (\<^verbatim>\<open>repo.get\<close> raises) and a commit that is no string end in an uncaught
      exception, and so does a repository that is true and no string: the call
      of line 137 raises on it before it prints or requests anything\<close>
  "process_entry fuel e repo st =
     (case repo of
        JObj items \<Rightarrow>
          (case entry_commit items of
             None \<Rightarrow> Some (Raise, st)
           | Some commit_hash \<Rightarrow>
               (case map_of items ''repo'' of
                  None \<Rightarrow> Some (Return (), emit (Print (InvalidRepositoryEntry repo)) st)
                | Some repo_url \<Rightarrow>
                    if \<not> truthy repo_url
                    then Some (Return (), emit (Print (InvalidRepositoryEntry repo)) st)
                    else (case repo_url of
                            JStr u \<Rightarrow> process_requirements_from_repo fuel e u (Some commit_hash) st
                          | _ \<Rightarrow> Some (Raise, st))))
      | _ \<Rightarrow> Some (Raise, st))"

fun process_repos :: "nat \<Rightarrow> env \<Rightarrow> json list \<Rightarrow> state \<Rightarrow> (unit result \<times> state) option" where
  "process_repos fuel e [] st = Some (Return (), st)"
| "process_repos fuel e (repo # repos) st =
     (case process_entry fuel e repo st of
        None \<Rightarrow> None
      | Some (Raise, st') \<Rightarrow> Some (Raise, st')
      | Some (Return x, st') \<Rightarrow> process_repos fuel e repos st')"

definition requirement_line :: "string \<times> specifier_set \<Rightarrow> string" where
  "requirement_line item =
     (case item of (name, specifier) \<Rightarrow>
        if specifier \<noteq> {} then name @ specifier_str specifier else name)"

definition consolidated_requirements :: "(string \<times> specifier_set) list \<Rightarrow> string list" where
  "consolidated_requirements dd = map requirement_line dd"

datatype outcome =
    SysExit nat
  | Traceback
  | Written "string list"

text \<open>
  How a run ends: \<^verbatim>\<open>sys.exit(n)\<close>, an uncaught exception (the interpreter prints
  the traceback and exits with status 1), or the end of the function with the
  lines written to \<^verbatim>\<open>requirements.txt\<close>, one per line. Failures of writing the
  file are not modelled.
\<close>

fun exit_status :: "outcome \<Rightarrow> nat" where
  "exit_status (SysExit n) = n"
| "exit_status Traceback = 1"
| "exit_status (Written ls) = 0"

definition consolidate_requirements :: "nat \<Rightarrow> env \<Rightarrow> json option \<Rightarrow> (outcome \<times> state) option" where
  \<comment> \<open>the second argument is what \<^verbatim>\<open>json.load\<close> gives for the file, \<open>None\<close> when the
      file cannot be opened or decoded\<close>
  "consolidate_requirements fuel e file =
     (case file of
        Some (JArr repos) \<Rightarrow>
          (case process_repos fuel e repos initial_state of
             None \<Rightarrow> None
           | Some (Raise, st) \<Rightarrow> Some (Traceback, st)
           | Some (Return u, st) \<Rightarrow>
               Some (Written (sort (consolidated_requirements (dependency_dict st))),
                     emit (Print Generated) st))
      | _ \<Rightarrow> Some (SysExit 1, emit (Print ErrorReadingJSON) initial_state))"

section \<open>Notions the theorems are stated with\<close>

subsection \<open>The trace of a run\<close>

text \<open>
  Reading the trace: the keys marked visited, the keys a manifest was requested
  for, the URLs requested, and the order the script keeps. \<open>visits_once\<close> says
  that no key is marked twice, that a manifest is requested only for a key
  marked earlier, and at most once for each key.
\<close>

fun marked :: "event list \<Rightarrow> repo_commit_key set" where
  "marked [] = {}"
| "marked (MarkVisited k # older) = insert k (marked older)"
| "marked (ev # older) = marked older"

fun fetched :: "event list \<Rightarrow> repo_commit_key set" where
  "fetched [] = {}"
| "fetched (GetManifest k u # older) = insert k (fetched older)"
| "fetched (ev # older) = fetched older"

fun manifest_requests :: "event list \<Rightarrow> string list" where
  "manifest_requests [] = []"
| "manifest_requests (GetManifest k u # older) = u # manifest_requests older"
| "manifest_requests (ev # older) = manifest_requests older"

fun visits_once :: "event list \<Rightarrow> bool" where
  "visits_once [] = True"
| "visits_once (MarkVisited k # older) = (k \<notin> marked older \<and> visits_once older)"
| "visits_once (GetManifest k u # older) =
     (k \<in> marked older \<and> k \<notin> fetched older \<and> visits_once older)"
| "visits_once (ev # older) = visits_once older"

definition traversal_inv :: "state \<Rightarrow> bool" where
  "traversal_inv st \<longleftrightarrow> visits_once (trace st) \<and> marked (trace st) = visited_repos st"

definition extends :: "state \<Rightarrow> state \<Rightarrow> bool" where
  "extends st st' \<longleftrightarrow>
     visited_repos st \<subseteq> visited_repos st' \<and> (traversal_inv st \<longrightarrow> traversal_inv st')"

definition quiet_step :: "state \<Rightarrow> state \<Rightarrow> bool" where
  "quiet_step st st' \<longleftrightarrow>
     visited_repos st' = visited_repos st \<and> dependency_dict st' = dependency_dict st
     \<and> url_requirements st' = url_requirements st
     \<and> marked (trace st') = marked (trace st) \<and> fetched (trace st') = fetched (trace st)
     \<and> (visits_once (trace st') \<longleftrightarrow> visits_once (trace st))"

definition failure_message :: "string \<Rightarrow> response \<Rightarrow> message" where
  \<comment> \<open>what \<^verbatim>\<open>get_default_branch\<close> prints when the query gave \<open>r\<close> and failed\<close>
  "failure_message repo_url r =
     (case r of
        ConnectionError \<Rightarrow> ErrorDefaultBranch repo_url
      | Response status_code text js \<Rightarrow>
          if status_code = 200 then ErrorDefaultBranch repo_url
          else FailedDefaultBranch repo_url status_code)"

subsection \<open>The repositories a run can reach\<close>

text \<open>
  The keys of the input's entries, the keys that the \<^verbatim>\<open>git+\<close> lines of a
  manifest name, and sets of keys that are closed under them.
\<close>

definition git_links :: "string \<Rightarrow> repo_commit_key list" where
  \<comment> \<open>the repositories the lines of a manifest refer to\<close>
  "git_links body = List.map_filter (\<lambda>l. parse_git_requirement (strip l)) (splitlines body)"

definition closed_under_links :: "env \<Rightarrow> repo_commit_key set \<Rightarrow> bool" where
  \<comment> \<open>whatever branch a repository of \<open>U\<close> is fetched at, its manifest refers to
      repositories of \<open>U\<close> only\<close>
  "closed_under_links e U \<longleftrightarrow>
     (\<forall>(u, c) \<in> U. \<forall>b raw body js.
        raw_requirements_url e u b = Some raw \<longrightarrow> http_get e raw = Response 200 body js
        \<longrightarrow> set (git_links body) \<subseteq> U)"

definition entry_key :: "json \<Rightarrow> repo_commit_key option" where
  \<comment> \<open>the key line 137 passes on for an entry of the input, if it has one\<close>
  "entry_key repo =
     (case repo of
        JObj items \<Rightarrow>
          (case (map_of items ''repo'', entry_commit items) of
             (Some (JStr u), Some commit_hash) \<Rightarrow> if u \<noteq> [] then Some (u, Some commit_hash) else None
           | _ \<Rightarrow> None)
      | _ \<Rightarrow> None)"

definition input_keys :: "json option \<Rightarrow> repo_commit_key set" where
  "input_keys file =
     (case file of Some (JArr repos) \<Rightarrow> set (List.map_filter entry_key repos) | _ \<Rightarrow> {})"

subsection \<open>Entries the loop gets through\<close>

text \<open>The entries of the input on which nothing in lines 130 to 137 raises.\<close>

definition accepted_url :: "env \<Rightarrow> string \<Rightarrow> bool" where
  \<comment> \<open>\<^verbatim>\<open>urlparse\<close> and \<^verbatim>\<open>urljoin\<close> raise nothing on this repository\<close>
  "accepted_url e u \<longleftrightarrow> url_path e u \<noteq> None \<and> (\<forall>b. raw_requirements_url e u b \<noteq> None)"

definition well_formed_entry :: "env \<Rightarrow> json \<Rightarrow> bool" where
  \<comment> \<open>a dictionary whose commit, if any, is a string and whose repository is missing,
      false, or a string that the URL functions accept\<close>
  "well_formed_entry e repo \<longleftrightarrow>
     (\<exists>items. repo = JObj items \<and> entry_commit items \<noteq> None
        \<and> (\<forall>v. map_of items ''repo'' = Some v \<longrightarrow>
               \<not> truthy v \<or> (\<exists>u. v = JStr u \<and> accepted_url e u)))"

subsection \<open>What a traversal amounts to\<close>

text \<open>
  The manifest of a key, the keys its lines refer to and the requirements its
  lines add are functions of the environment; the keys that can be reached from
  the input are those that chains of references lead to; and \<open>merged\<close> is the
  dictionary that a set of requirements comes to.
\<close>

definition default_branch :: "env \<Rightarrow> string \<Rightarrow> json result" where
  \<comment> \<open>what \<^verbatim>\<open>get_default_branch\<close> returns; the state it is called in does not matter\<close>
  "default_branch e u = fst (get_default_branch e u initial_state)"

definition resolved_commit :: "env \<Rightarrow> repo_commit_key \<Rightarrow> string option" where
  \<comment> \<open>the commit or branch the manifest of a key is fetched at, if it is fetched\<close>
  "resolved_commit e k =
     (case k of (u, c) \<Rightarrow>
        if c = None \<or> c = Some []
        then (case default_branch e u of
                Return branch \<Rightarrow> if truthy branch then Some (format_commit e branch) else None
              | Raise \<Rightarrow> None)
        else c)"

definition manifest_lines :: "env \<Rightarrow> repo_commit_key \<Rightarrow> string list" where
  \<comment> \<open>the lines the loop of line 59 runs over when the key is visited\<close>
  "manifest_lines e k =
     (case resolved_commit e k of
        None \<Rightarrow> []
      | Some b \<Rightarrow>
          (case raw_requirements_url e (fst k) b of
             None \<Rightarrow> []
           | Some raw \<Rightarrow>
               (case http_get e raw of
                  ConnectionError \<Rightarrow> []
                | Response code body js \<Rightarrow> if code = 200 then splitlines body else [])))"

definition line_link :: "env \<Rightarrow> string \<Rightarrow> repo_commit_key option" where
  \<comment> \<open>the repository a line makes the script recurse into\<close>
  "line_link e raw_line =
     (let req_line = strip raw_line
      in if req_line = [] \<or> startswith req_line ''#'' then None
         else (case parse_requirement e req_line of
                 InvalidRequirement \<Rightarrow>
                   if startswith req_line ''git+''
                   then (case parse_git_requirement req_line of
                           Some (u, c) \<Rightarrow> if u \<noteq> [] then Some (u, c) else None
                         | None \<Rightarrow> None)
                   else None
               | _ \<Rightarrow> None))"

definition line_requirement :: "env \<Rightarrow> string \<Rightarrow> (string \<times> specifier_set) option" where
  \<comment> \<open>the lowered name and the specifier a line adds to \<^verbatim>\<open>dependency_dict\<close>\<close>
  "line_requirement e raw_line =
     (let req_line = strip raw_line
      in if req_line = [] \<or> startswith req_line ''#'' then None
         else (case parse_requirement e req_line of
                 Requirement req_name specifier \<Rightarrow> Some (lower req_name, specifier)
               | _ \<Rightarrow> None))"

definition links_of :: "env \<Rightarrow> string list \<Rightarrow> repo_commit_key set" where
  "links_of e ls = set (List.map_filter (line_link e) ls)"

definition requirements_of :: "env \<Rightarrow> string list \<Rightarrow> (string \<times> specifier_set) set" where
  "requirements_of e ls = set (List.map_filter (line_requirement e) ls)"

definition reachable :: "env \<Rightarrow> repo_commit_key set \<Rightarrow> repo_commit_key set" where
  \<comment> \<open>the keys that chains of \<^verbatim>\<open>git+\<close> lines lead to from the given ones\<close>
  "reachable e roots = {(k, k'). k' \<in> links_of e (manifest_lines e k)}\<^sup>* `` roots"

definition merged :: "(string \<times> specifier_set) set \<Rightarrow> string \<Rightarrow> specifier_set option" where
  \<comment> \<open>the dictionary a set of requirements amounts to: for each name, the clauses
      of all its specifiers\<close>
  "merged R n = (if n \<in> fst ` R then Some (\<Union> {s. (n, s) \<in> R}) else None)"

definition summary ::
  "env \<Rightarrow> repo_commit_key set \<Rightarrow> (string \<times> specifier_set) set \<Rightarrow> state \<Rightarrow> state \<Rightarrow> bool"
where
  \<comment> \<open>what following the keys \<open>S\<close> and merging the requirements \<open>Q\<close> does to a state\<close>
  "summary e S Q st st' \<longleftrightarrow>
     visited_repos st \<subseteq> visited_repos st'
     \<and> S \<subseteq> visited_repos st'
     \<and> (\<forall>k \<in> visited_repos st' - visited_repos st.
           links_of e (manifest_lines e k) \<subseteq> visited_repos st')
     \<and> visited_repos st' - visited_repos st \<subseteq> reachable e S
     \<and> (\<forall>R. map_of (dependency_dict st) = merged R \<longrightarrow>
           map_of (dependency_dict st')
             = merged (R \<union> Q \<union> (\<Union>k \<in> visited_repos st' - visited_repos st.
                                    requirements_of e (manifest_lines e k))))"

section \<open>Environments and inputs of the examples\<close>

text \<open>
  Stand-ins for the network and the libraries, used to run the script on
  examples; the general theorems hold for every environment. The parser reads a
  name and, after it, clauses separated by commas; the URL functions refuse an
  unclosed bracket as \<^verbatim>\<open>urllib.parse\<close> does, and join by appending; the network
  answers from a table.
\<close>

definition example_parser :: "string \<Rightarrow> requirement" where
  "example_parser l =
     (let name = takeWhile (\<lambda>c. c \<in> set ''abcdefghijklmnopqrstuvwxyzABCDEFGHIJKLMNOPQRSTUVWXYZ0123456789._-'') l;
          rest = drop (length name) l
      in if name = [] then InvalidRequirement
         else if rest = [] then Requirement name {}
         else if hd rest \<in> set ''<>=!~'' then Requirement name (set (split (CHR '','') rest))
         else InvalidRequirement)"

definition unclosed_bracket :: "string \<Rightarrow> bool" where
  "unclosed_bracket u = (CHR ''['' \<in> set u \<and> CHR '']'' \<notin> set u)"

definition example_url_path :: "string \<Rightarrow> string option" where
  "example_url_path u =
     (if unclosed_bracket u then None
      else Some (dropWhile (\<lambda>c. c \<noteq> CHR ''/'') (drop (length ''https://'') u)))"

definition example_urljoin :: "string \<Rightarrow> string \<Rightarrow> string option" where
  "example_urljoin b r = (if unclosed_bracket b then None else Some (b @ r))"

definition example_env :: "(string \<times> response) list \<Rightarrow> env" where
  \<comment> \<open>the network answers from a table and with status 404 outside it\<close>
  "example_env pages =
     \<lparr>http_get = (\<lambda>u. case map_of pages u of Some r \<Rightarrow> r | None \<Rightarrow> Response 404 [] None),
      parse_requirement = example_parser,
      url_path = example_url_path,
      urljoin = example_urljoin,
      str_of = (\<lambda>v. [])\<rparr>"

definition manifest :: "string \<Rightarrow> response" where
  "manifest body = Response 200 body None"

definition repo_entry :: "string \<Rightarrow> string \<Rightarrow> json" where
  "repo_entry u c = JObj [(''repo'', JStr u), (''commit'', JStr c)]"

definition example_admits :: "string \<Rightarrow> nat \<Rightarrow> bool" where
  \<comment> \<open>versions as numbers, for two clauses\<close>
  "example_admits c v =
     (if c = ''>=1'' then 1 \<le> v else if c = ''<3'' then v < 3 else True)"

text \<open>The repository a/b at \<^verbatim>\<open>main\<close>, with several manifests.\<close>

definition a_b_url :: string where
  "a_b_url = ''https://github.com/a/b''"

definition a_b_main_raw :: string where
  "a_b_main_raw = ''https://raw.githubusercontent.com/a/b/main/requirements.txt''"

definition a_b_main :: "json option" where
  \<comment> \<open>the input file \<^verbatim>\<open>[{"repo": "https://github.com/a/b", "commit": "main"}]\<close>\<close>
  "a_b_main = Some (JArr [JObj [(''repo'', JStr ''https://github.com/a/b''), (''commit'', JStr ''main'')]])"

definition a_b_entry :: json where
  "a_b_entry = repo_entry a_b_url ''main''"

definition two_line_env :: env where
  "two_line_env = example_env [(a_b_main_raw, manifest ''foo>=1.0\<newline>bar==2.0'')]"

definition two_line_state :: state where
  "two_line_state =
     \<lparr>dependency_dict = [(''foo'', {''>=1.0''}), (''bar'', {''==2.0''})],
      url_requirements = {},
      visited_repos = {(a_b_url, Some ''main'')},
      trace = [GetManifest (a_b_url, Some ''main'') a_b_main_raw,
               MarkVisited (a_b_url, Some ''main'')]\<rparr>"

definition opaque_env :: env where
  "opaque_env = example_env [(a_b_main_raw, manifest ''-e .'')]"

definition one_line_env :: env where
  \<comment> \<open>the API of the hosting service is not in the table: it answers 404\<close>
  "one_line_env = example_env [(a_b_main_raw, manifest ''foo>=1.0'')]"

definition foo_state :: state where
  "foo_state = initial_state\<lparr>dependency_dict := [(''foo'', {''>=1''})]\<rparr>"

definition ssh_line :: string where
  "ssh_line = ''git+ssh://git@github.com/a/b.git''"

definition strings_input :: "json option" where
  \<comment> \<open>\<^verbatim>\<open>["https://github.com/a/b"]\<close>: a list, but of strings\<close>
  "strings_input = Some (JArr [JStr ''https://github.com/a/b''])"

text \<open>The same repository, once with an empty commit and once at its default branch.\<close>

definition twice_env :: env where
  \<comment> \<open>the API names \<^verbatim>\<open>main\<close> as the default branch of a/b\<close>
  "twice_env = example_env
     [(api_url ''a'' ''b'', Response 200 [] (Some (JObj [(''default_branch'', JStr ''main'')]))),
      (a_b_main_raw, manifest ''foo>=1.0'')]"

definition twice_input :: "json option" where
  \<comment> \<open>\<^verbatim>\<open>[{"repo": "https://github.com/a/b", "commit": ""},
       {"repo": "https://github.com/a/b", "commit": "main"}]\<close>\<close>
  "twice_input = Some (JArr [repo_entry a_b_url [], repo_entry a_b_url ''main''])"

text \<open>
  A second repository, c/d: cycles of two repositories (with and without
  revisions in the references), two manifests that refer to a URL that
  \<^verbatim>\<open>urlparse\<close> refuses, and two that constrain one package.
\<close>

definition c_d_url :: string where
  "c_d_url = ''https://github.com/c/d''"

definition c_d_main_raw :: string where
  "c_d_main_raw = ''https://raw.githubusercontent.com/c/d/main/requirements.txt''"

definition c_d_entry :: json where
  "c_d_entry = repo_entry c_d_url ''main''"

definition cycle_env :: env where
  \<comment> \<open>a/b refers to c/d, and c/d back to a/b\<close>
  "cycle_env = example_env
     [(a_b_main_raw, manifest ''git+https://github.com/c/d@main''),
      (c_d_main_raw, manifest ''git+https://github.com/a/b@main\<newline>foo>=1.0'')]"

definition cycle_keys :: "repo_commit_key set" where
  "cycle_keys = {(a_b_url, Some ''main''), (c_d_url, Some ''main'')}"

definition plain_cycle_env :: env where
  \<comment> \<open>a/b refers to c/d and c/d to a/b, neither with a revision; the API is not in
      the table, so \<^verbatim>\<open>main\<close> is used for both\<close>
  "plain_cycle_env = example_env
     [(a_b_main_raw, manifest ''git+https://github.com/c/d''),
      (c_d_main_raw, manifest ''git+https://github.com/a/b'')]"

definition no_commit_input :: "json option" where
  \<comment> \<open>\<^verbatim>\<open>[{"repo": "https://github.com/a/b"}]\<close>\<close>
  "no_commit_input = Some (JArr [JObj [(''repo'', JStr ''https://github.com/a/b'')]])"

definition bracket_env :: env where
  \<comment> \<open>both manifests refer to \<^verbatim>\<open>https://[\<close>, on which \<^verbatim>\<open>urlparse\<close> raises\<close>
  "bracket_env = example_env
     [(a_b_main_raw, manifest ''git+https://[\<newline>foo>=1.0''),
      (c_d_main_raw, manifest ''git+https://['')]"

definition foo_twice_env :: env where
  \<comment> \<open>a/b needs foo and refers to c/d, which needs foo too\<close>
  "foo_twice_env = example_env
     [(a_b_main_raw, manifest ''foo>=1.0\<newline>git+https://github.com/c/d@main''),
      (c_d_main_raw, manifest ''foo<2.0'')]"

definition foo_twice_permuted :: env where
  \<comment> \<open>the lines of the first manifest in the other order\<close>
  "foo_twice_permuted = example_env
     [(a_b_main_raw, manifest ''git+https://github.com/c/d@main\<newline>foo>=1.0''),
      (c_d_main_raw, manifest ''foo<2.0'')]"

section \<open>Properties of the script\<close>

subsection \<open>The state after an event\<close>

lemma dependency_dict_emit [simp]: "dependency_dict (emit ev st) = dependency_dict st"
  by (simp add: emit_def)

lemma url_requirements_emit [simp]: "url_requirements (emit ev st) = url_requirements st"
  by (simp add: emit_def)

lemma visited_repos_emit [simp]: "visited_repos (emit ev st) = visited_repos st"
  by (simp add: emit_def)

lemma trace_emit [simp]: "trace (emit ev st) = ev # trace st"
  by (simp add: emit_def)

subsection \<open>The file written\<close>

lemma written_lines:
  assumes "consolidate_requirements fuel e file = Some (Written ls, st)"
  shows "ls = sort (map requirement_line (dependency_dict st))"
  using assms
  by (auto simp: consolidate_requirements_def consolidated_requirements_def
      split: option.splits json.splits result.splits prod.splits)

lemma example_strings:
  "strip ''main'' = ''main''
   \<and> replace ''github.com'' ''raw.githubusercontent.com'' ''https://github.com/a/b''
       = ''https://raw.githubusercontent.com/a/b''
   \<and> splitlines ''foo>=1.0\<newline>bar==2.0'' = [''foo>=1.0'', ''bar==2.0'']
   \<and> strip ''foo>=1.0'' = ''foo>=1.0''
   \<and> strip ''bar==2.0'' = ''bar==2.0''
   \<and> lower ''foo'' = ''foo''
   \<and> lower ''bar'' = ''bar''"
  by code_simp

lemma example_run:
  assumes "urljoin e ''https://raw.githubusercontent.com/a/b/'' ''main/requirements.txt'' = Some raw"
    and "http_get e raw = Response 200 ''foo>=1.0\<newline>bar==2.0'' js"
    and "parse_requirement e ''foo>=1.0'' = Requirement ''foo'' {''>=1.0''}"
    and "parse_requirement e ''bar==2.0'' = Requirement ''bar'' {''==2.0''}"
  shows "map_option fst (consolidate_requirements (Suc fuel) e a_b_main)
         = Some (Written [''bar==2.0'', ''foo>=1.0''])"
  using assms
  by (simp add: consolidate_requirements_def process_entry_def entry_commit_def
      initial_state_def visit_repo_def a_b_main_def
      fetch_requirements_def raw_requirements_url_def process_line_def merge_requirement_def example_strings
      startswith_def consolidated_requirements_def requirement_line_def specifier_str_def Let_def)

text \<open>
  C8. Whenever a run writes the file, the lines written are the items of
  \<^verbatim>\<open>dependency_dict\<close>, each the name followed by the text of its specifier when
  the specifier is not empty and the name alone otherwise, in sorted order. For
  the input \<^verbatim>\<open>[{"repo": "https://github.com/a/b", "commit": "main"}]\<close> and a
  manifest of the two lines \<^verbatim>\<open>foo>=1.0\<close> and \<^verbatim>\<open>bar==2.0\<close> the file is
  \<^verbatim>\<open>bar==2.0\<close>, then \<^verbatim>\<open>foo>=1.0\<close>.
\<close>

theorem emitted_manifest:
  "(consolidate_requirements fuel e file = Some (Written ls, st) \<longrightarrow>
      ls = sort (map (\<lambda>(name, specifier).
                  if specifier \<noteq> {} then name @ specifier_str specifier else name)
                (dependency_dict st))
      \<and> sorted ls)
   \<and> (urljoin e ''https://raw.githubusercontent.com/a/b/'' ''main/requirements.txt'' = Some raw
      \<and> http_get e raw = Response 200 ''foo>=1.0\<newline>bar==2.0'' js
      \<and> parse_requirement e ''foo>=1.0'' = Requirement ''foo'' {''>=1.0''}
      \<and> parse_requirement e ''bar==2.0'' = Requirement ''bar'' {''==2.0''} \<longrightarrow>
      map_option fst (consolidate_requirements (Suc n) e a_b_main)
      = Some (Written [''bar==2.0'', ''foo>=1.0'']))"
proof (intro conjI impI)
  assume run: "consolidate_requirements fuel e file = Some (Written ls, st)"
  have "requirement_line = (\<lambda>(name, specifier).
          if specifier \<noteq> {} then name @ specifier_str specifier else name)"
    by (auto simp: requirement_line_def fun_eq_iff)
  with written_lines [OF run]
  show "ls = sort (map (\<lambda>(name, specifier).
                  if specifier \<noteq> {} then name @ specifier_str specifier else name)
                (dependency_dict st))"
    by simp
  from written_lines [OF run] show "sorted ls" by simp
next
  assume "urljoin e ''https://raw.githubusercontent.com/a/b/'' ''main/requirements.txt'' = Some raw
      \<and> http_get e raw = Response 200 ''foo>=1.0\<newline>bar==2.0'' js
      \<and> parse_requirement e ''foo>=1.0'' = Requirement ''foo'' {''>=1.0''}
      \<and> parse_requirement e ''bar==2.0'' = Requirement ''bar'' {''==2.0''}"
  then show "map_option fst (consolidate_requirements (Suc n) e a_b_main)
      = Some (Written [''bar==2.0'', ''foo>=1.0''])"
    using example_run by blast
qed

lemma two_line_run:
  "consolidate_requirements 1 two_line_env a_b_main =
   Some (Written [''bar==2.0'', ''foo>=1.0''],
         \<lparr>dependency_dict = [(''foo'', {''>=1.0''}), (''bar'', {''==2.0''})],
          url_requirements = {},
          visited_repos = {(''https://github.com/a/b'', Some ''main'')},
          trace = [Print Generated,
                   GetManifest (''https://github.com/a/b'', Some ''main'')
                     ''https://raw.githubusercontent.com/a/b/main/requirements.txt'',
                   MarkVisited (''https://github.com/a/b'', Some ''main'')]\<rparr>)"
  by code_simp

lemma two_line_env_facts:
  "urljoin two_line_env ''https://raw.githubusercontent.com/a/b/'' ''main/requirements.txt''
     = Some a_b_main_raw
   \<and> http_get two_line_env a_b_main_raw = Response 200 ''foo>=1.0\<newline>bar==2.0'' None
   \<and> parse_requirement two_line_env ''foo>=1.0'' = Requirement ''foo'' {''>=1.0''}
   \<and> parse_requirement two_line_env ''bar==2.0'' = Requirement ''bar'' {''==2.0''}"
  by code_simp

theorem emitted_manifest_witness:
  "(\<exists>st. consolidate_requirements 1 two_line_env a_b_main
            = Some (Written [''bar==2.0'', ''foo>=1.0''], st)
         \<and> [''bar==2.0'', ''foo>=1.0'']
            = sort (map (\<lambda>(name, specifier).
                      if specifier \<noteq> {} then name @ specifier_str specifier else name)
                    (dependency_dict st))
         \<and> sorted [''bar==2.0'', ''foo>=1.0''])
   \<and> http_get two_line_env a_b_main_raw = Response 200 ''foo>=1.0\<newline>bar==2.0'' None
   \<and> map_option fst (consolidate_requirements (Suc 0) two_line_env a_b_main)
      = Some (Written [''bar==2.0'', ''foo>=1.0''])"
  using emitted_manifest [of 1 two_line_env a_b_main "[''bar==2.0'', ''foo>=1.0'']" _ a_b_main_raw None 0]
    two_line_run two_line_env_facts
  by simp

subsection \<open>Lines that are no requirement\<close>

text \<open>
  C1. The script collects a line that is neither a requirement nor a
  \<^verbatim>\<open>git+\<close> reference in \<^verbatim>\<open>url_requirements\<close> (line 84, under the comment
  "Include unparseable requirement as-is"), but \<^verbatim>\<open>consolidate_requirements\<close>
  writes the items of \<^verbatim>\<open>dependency_dict\<close> only: for a manifest of the one line
  \<^verbatim>\<open>-e .\<close> the line is in the set and the file written is empty.
\<close>

theorem opaque_line_not_written:
  "consolidate_requirements 1 opaque_env a_b_main =
   Some (Written [],
         \<lparr>dependency_dict = [],
          url_requirements = {''-e .''},
          visited_repos = {(''https://github.com/a/b'', Some ''main'')},
          trace = [Print Generated,
                   GetManifest (''https://github.com/a/b'', Some ''main'')
                     ''https://raw.githubusercontent.com/a/b/main/requirements.txt'',
                   MarkVisited (''https://github.com/a/b'', Some ''main'')]\<rparr>)"
  by code_simp

lemma startswith_git_not_comment:
  assumes "startswith l ''git+''"
  shows "l \<noteq> [] \<and> \<not> startswith l ''#''"
  using assms by (cases l) (auto simp: startswith_def)

text \<open>
  C10. A line that starts with \<^verbatim>\<open>git+\<close>, for which \<^verbatim>\<open>Requirement\<close> raises
  \<^verbatim>\<open>InvalidRequirement\<close> (as the library does on every such line) and which the
  pattern of \<^verbatim>\<open>parse_git_requirement\<close> does not match, leaves the whole state as
  it was: nothing is added to \<^verbatim>\<open>dependency_dict\<close>, \<^verbatim>\<open>url_requirements\<close> or
  \<^verbatim>\<open>visited_repos\<close>, nothing is printed or requested, and the recursive call is
  not made (the result is the same for every \<open>recurse\<close>).
\<close>

theorem unmatched_git_line_ignored:
  assumes "startswith (strip raw_line) ''git+''"
    and "parse_requirement e (strip raw_line) = InvalidRequirement"
    and "parse_git_requirement (strip raw_line) = None"
  shows "process_line recurse e repo_url raw_line st = Some (Return (), st)"
  using assms startswith_git_not_comment [OF assms(1)]
  by (simp add: process_line_def Let_def)

theorem unmatched_git_line_ignored_witness:
  "startswith (strip ssh_line) ''git+''
   \<and> parse_requirement (example_env []) (strip ssh_line) = InvalidRequirement
   \<and> parse_git_requirement (strip ssh_line) = None
   \<and> process_line (\<lambda>u c st. None) (example_env []) ''https://github.com/a/b'' ssh_line initial_state
       = Some (Return (), initial_state)"
proof -
  have 1: "startswith (strip ssh_line) ''git+''" by code_simp
  have 2: "parse_requirement (example_env []) (strip ssh_line) = InvalidRequirement" by code_simp
  have 3: "parse_git_requirement (strip ssh_line) = None" by code_simp
  from unmatched_git_line_ignored [OF 1 2 3] 1 2 3 show ?thesis by simp
qed

subsection \<open>Merging specifiers\<close>

lemma map_of_merge_requirement:
  "map_of (merge_requirement n s dd) (lower n) =
     Some (case map_of dd (lower n) of Some s0 \<Rightarrow> specifier_and s0 s | None \<Rightarrow> s)"
  by (simp add: merge_requirement_def Let_def update_conv' split: option.splits)

lemma contains_specifier_and:
  "contains admits (specifier_and a b) v \<longleftrightarrow> contains admits a v \<and> contains admits b v"
  by (auto simp: contains_def specifier_and_def)

text \<open>
  C4. When \<^verbatim>\<open>dependency_dict\<close> holds the specifier \<open>s1\<close> for a lowered name and
  a line gives the specifier \<open>s2\<close> for a name that lowers to the same, the
  specifier stored after the line admits exactly the versions that both \<open>s1\<close> and
  \<open>s2\<close> admit, whatever versions the single clauses admit.
\<close>

theorem merged_specifier_is_intersection:
  assumes "map_of (dependency_dict st) (lower name) = Some s1"
    and "strip raw_line \<noteq> []" and "\<not> startswith (strip raw_line) ''#''"
    and "parse_requirement e (strip raw_line) = Requirement name s2"
  shows "\<exists>st' merged. process_line recurse e repo_url raw_line st = Some (Return (), st')
           \<and> map_of (dependency_dict st') (lower name) = Some merged
           \<and> (\<forall>v. contains admits merged v \<longleftrightarrow> contains admits s1 v \<and> contains admits s2 v)"
  using assms
  by (simp add: process_line_def Let_def map_of_merge_requirement contains_specifier_and)

lemma foo_line_facts:
  "map_of (dependency_dict foo_state) (lower ''Foo'') = Some {''>=1''}
   \<and> strip ''Foo<3'' \<noteq> []
   \<and> \<not> startswith (strip ''Foo<3'') ''#''
   \<and> parse_requirement (example_env []) (strip ''Foo<3'') = Requirement ''Foo'' {''<3''}"
  by code_simp

theorem merged_specifier_is_intersection_witness:
  "map_of (dependency_dict foo_state) (lower ''Foo'') = Some {''>=1''}
   \<and> parse_requirement (example_env []) (strip ''Foo<3'') = Requirement ''Foo'' {''<3''}
   \<and> (\<exists>st' merged.
         process_line (\<lambda>u c st. None) (example_env []) a_b_url ''Foo<3'' foo_state
           = Some (Return (), st')
         \<and> map_of (dependency_dict st') (lower ''Foo'') = Some merged
         \<and> (\<forall>v. contains example_admits merged v
                \<longleftrightarrow> contains example_admits {''>=1''} v \<and> contains example_admits {''<3''} v))"
  using merged_specifier_is_intersection
          [of foo_state "''Foo''" "{''>=1''}" "''Foo<3''" "example_env []" "{''<3''}"
              "\<lambda>u c st. None" a_b_url example_admits]
        foo_line_facts
  by simp

subsection \<open>The default branch\<close>

lemma get_default_branch_failed:
  assumes "url_path e repo_url = Some path"
    and "split (CHR ''/'') (strip_char (CHR ''/'') path) = owner # repo_name # others"
    and "http_get e (api_url owner repo_name) = r"
    and "r = ConnectionError \<or> (\<exists>code text js. r = Response code text js
           \<and> (code \<noteq> 200 \<or> js = None \<or> (\<exists>v. js = Some v \<and> (\<forall>d. v \<noteq> JObj d))))"
  shows "get_default_branch e repo_url st =
           (Return (JStr ''main''),
            emit (Print (failure_message repo_url r))
              (emit (GetRepoInfo (api_url owner repo_name)) st))"
  using assms
  by (auto simp: get_default_branch_def Let_def failure_message_def
      split: option.splits json.splits)

lemma get_default_branch_answered:
  assumes "url_path e repo_url = Some path"
    and "split (CHR ''/'') (strip_char (CHR ''/'') path) = owner # repo_name # others"
    and "http_get e (api_url owner repo_name) = Response 200 body (Some (JObj repo_info))"
  shows "get_default_branch e repo_url st =
           (Return (case map_of repo_info ''default_branch'' of Some v \<Rightarrow> v | None \<Rightarrow> JStr ''main''),
            emit (GetRepoInfo (api_url owner repo_name)) st)"
  using assms by (simp add: get_default_branch_def Let_def)

text \<open>
  C9, as the claim states it, fails: a repository with an unset commit whose URL
  has fewer than two parts in its path is not asked about at all. Line 14 reports
  the URL as invalid, \<^verbatim>\<open>get_default_branch\<close> returns \<^verbatim>\<open>None\<close> and the
  repository is skipped.
\<close>

theorem short_url_not_queried:
  "process_requirements_from_repo 1 (example_env []) ''https://github.com/a'' None initial_state =
   Some (Return (),
         \<lparr>dependency_dict = [], url_requirements = {},
          visited_repos = {(''https://github.com/a'', None)},
          trace = [Print (SkippingRepository ''https://github.com/a''),
                   Print (InvalidRepositoryURL ''https://github.com/a''),
                   MarkVisited (''https://github.com/a'', None)]\<rparr>)"
  by code_simp

text \<open>
  C9, amended. For a repository whose commit is unset (\<^verbatim>\<open>None\<close> or empty) and
  whose URL has an owner and a name in its path, the script asks the API of the
  hosting service for the repository. When the answer is a JSON object with
  status 200, its \<^verbatim>\<open>default_branch\<close> (or \<^verbatim>\<open>main\<close>, when it has none) is
  the branch the manifest is fetched at, if it is true. When the request raises,
  answers with another status, or answers with a body that is no JSON object,
  the failure is printed and the run goes on to fetch the manifest at the branch
  \<^verbatim>\<open>main\<close>.
\<close>

theorem default_branch_fallback:
  assumes "repo_url \<noteq> []" and "(repo_url, commit_hash) \<notin> visited_repos st"
    and "commit_hash = None \<or> commit_hash = Some []"
    and "url_path e repo_url = Some path"
    and "split (CHR ''/'') (strip_char (CHR ''/'') path) = owner # repo_name # others"
    and "http_get e (api_url owner repo_name) = r"
  shows "(r = ConnectionError \<or> (\<exists>code body js. r = Response code body js
            \<and> (code \<noteq> 200 \<or> js = None \<or> (\<exists>v. js = Some v \<and> (\<forall>d. v \<noteq> JObj d))))
          \<longrightarrow> (\<exists>st1. trace st1 = Print (failure_message repo_url r)
                   # GetRepoInfo (api_url owner repo_name)
                   # MarkVisited (repo_url, commit_hash) # trace st
               \<and> visit_repo recurse e repo_url commit_hash st
                   = fetch_requirements recurse e repo_url commit_hash ''main'' st1))
       \<and> (\<forall>body repo_info branch.
             r = Response 200 body (Some (JObj repo_info))
             \<and> branch = (case map_of repo_info ''default_branch'' of
                           Some v \<Rightarrow> v | None \<Rightarrow> JStr ''main'')
             \<and> truthy branch
          \<longrightarrow> (\<exists>st1. trace st1 = GetRepoInfo (api_url owner repo_name)
                   # MarkVisited (repo_url, commit_hash) # trace st
               \<and> visit_repo recurse e repo_url commit_hash st
                   = fetch_requirements recurse e repo_url commit_hash (format_commit e branch) st1))"
proof (intro conjI allI impI)
  let ?st0 = "emit (MarkVisited (repo_url, commit_hash))
                (st\<lparr>visited_repos := insert (repo_url, commit_hash) (visited_repos st)\<rparr>)"
  let ?st1 = "emit (Print (failure_message repo_url r))
                (emit (GetRepoInfo (api_url owner repo_name)) ?st0)"
  assume failed: "r = ConnectionError \<or> (\<exists>code body js. r = Response code body js
            \<and> (code \<noteq> 200 \<or> js = None \<or> (\<exists>v. js = Some v \<and> (\<forall>d. v \<noteq> JObj d))))"
  have "get_default_branch e repo_url ?st0 = (Return (JStr ''main''), ?st1)"
    by (rule get_default_branch_failed [OF assms(4-6) failed])
  with assms(1-3)
  have "visit_repo recurse e repo_url commit_hash st
          = fetch_requirements recurse e repo_url commit_hash ''main'' ?st1"
    by (simp add: visit_repo_def Let_def format_commit_def)
  moreover have "trace ?st1 = Print (failure_message repo_url r)
                   # GetRepoInfo (api_url owner repo_name)
                   # MarkVisited (repo_url, commit_hash) # trace st"
    by simp
  ultimately show "\<exists>st1. trace st1 = Print (failure_message repo_url r)
                   # GetRepoInfo (api_url owner repo_name)
                   # MarkVisited (repo_url, commit_hash) # trace st
               \<and> visit_repo recurse e repo_url commit_hash st
                   = fetch_requirements recurse e repo_url commit_hash ''main'' st1"
    by blast
next
  fix body repo_info branch
  let ?st0 = "emit (MarkVisited (repo_url, commit_hash))
                (st\<lparr>visited_repos := insert (repo_url, commit_hash) (visited_repos st)\<rparr>)"
  let ?st1 = "emit (GetRepoInfo (api_url owner repo_name)) ?st0"
  assume a: "r = Response 200 body (Some (JObj repo_info))
             \<and> branch = (case map_of repo_info ''default_branch'' of
                           Some v \<Rightarrow> v | None \<Rightarrow> JStr ''main'')
             \<and> truthy branch"
  with assms(6) have "http_get e (api_url owner repo_name)
      = Response 200 body (Some (JObj repo_info))"
    by simp
  from get_default_branch_answered [OF assms(4,5) this] a
  have g: "get_default_branch e repo_url ?st0 = (Return branch, ?st1)" by simp
  from a have tb: "truthy branch" by blast
  from assms(1-3) g tb
  have "visit_repo recurse e repo_url commit_hash st
          = fetch_requirements recurse e repo_url commit_hash (format_commit e branch) ?st1"
    by (simp add: visit_repo_def Let_def)
  moreover have "trace ?st1 = GetRepoInfo (api_url owner repo_name)
                   # MarkVisited (repo_url, commit_hash) # trace st"
    by simp
  ultimately show "\<exists>st1. trace st1 = GetRepoInfo (api_url owner repo_name)
                   # MarkVisited (repo_url, commit_hash) # trace st
               \<and> visit_repo recurse e repo_url commit_hash st
                   = fetch_requirements recurse e repo_url commit_hash (format_commit e branch) st1"
    by blast
qed

lemma one_line_env_facts:
  "a_b_url \<noteq> []
   \<and> url_path one_line_env a_b_url = Some ''/a/b''
   \<and> split (CHR ''/'') (strip_char (CHR ''/'') ''/a/b'') = ''a'' # ''b'' # []
   \<and> http_get one_line_env (api_url ''a'' ''b'') = Response 404 [] None"
  by code_simp

lemma one_line_run:
  "process_requirements_from_repo 1 one_line_env a_b_url None initial_state =
   Some (Return (),
         \<lparr>dependency_dict = [(''foo'', {''>=1.0''})],
          url_requirements = {},
          visited_repos = {(a_b_url, None)},
          trace = [GetManifest (a_b_url, None) a_b_main_raw,
                   Print (FailedDefaultBranch a_b_url 404),
                   GetRepoInfo ''https://api.github.com/repos/a/b'',
                   MarkVisited (a_b_url, None)]\<rparr>)"
  by code_simp

lemma twice_env_facts:
  "url_path twice_env a_b_url = Some ''/a/b''
   \<and> http_get twice_env (api_url ''a'' ''b'')
       = Response 200 [] (Some (JObj [(''default_branch'', JStr ''main'')]))"
  by code_simp

theorem default_branch_fallback_witness:
  "url_path one_line_env a_b_url = Some ''/a/b''
   \<and> http_get one_line_env (api_url ''a'' ''b'') = Response 404 [] None
   \<and> (\<exists>st1. trace st1 = Print (failure_message a_b_url (Response 404 [] None))
                   # GetRepoInfo (api_url ''a'' ''b'')
                   # MarkVisited (a_b_url, None) # trace initial_state
           \<and> visit_repo (\<lambda>u c st. None) one_line_env a_b_url None initial_state
               = fetch_requirements (\<lambda>u c st. None) one_line_env a_b_url None ''main'' st1)
   \<and> process_requirements_from_repo 1 one_line_env a_b_url None initial_state =
       Some (Return (),
         \<lparr>dependency_dict = [(''foo'', {''>=1.0''})],
          url_requirements = {},
          visited_repos = {(a_b_url, None)},
          trace = [GetManifest (a_b_url, None) a_b_main_raw,
                   Print (FailedDefaultBranch a_b_url 404),
                   GetRepoInfo ''https://api.github.com/repos/a/b'',
                   MarkVisited (a_b_url, None)]\<rparr>)
   \<and> http_get twice_env (api_url ''a'' ''b'')
       = Response 200 [] (Some (JObj [(''default_branch'', JStr ''main'')]))
   \<and> (\<exists>st1. trace st1 = GetRepoInfo (api_url ''a'' ''b'')
                   # MarkVisited (a_b_url, None) # trace initial_state
           \<and> visit_repo (\<lambda>u c st. None) twice_env a_b_url None initial_state
               = fetch_requirements (\<lambda>u c st. None) twice_env a_b_url None
                   (format_commit twice_env (JStr ''main'')) st1)"
proof -
  have failing: "\<exists>st1. trace st1 = Print (failure_message a_b_url (Response 404 [] None))
                   # GetRepoInfo (api_url ''a'' ''b'')
                   # MarkVisited (a_b_url, None) # trace initial_state
           \<and> visit_repo (\<lambda>u c st. None) one_line_env a_b_url None initial_state
               = fetch_requirements (\<lambda>u c st. None) one_line_env a_b_url None ''main'' st1"
    using default_branch_fallback
          [of a_b_url None initial_state one_line_env "''/a/b''" "''a''" "''b''" "[]"
              "Response 404 [] None" "\<lambda>u c st. None"]
        one_line_env_facts
    by (simp add: initial_state_def)
  have answered: "\<exists>st1. trace st1 = GetRepoInfo (api_url ''a'' ''b'')
                   # MarkVisited (a_b_url, None) # trace initial_state
           \<and> visit_repo (\<lambda>u c st. None) twice_env a_b_url None initial_state
               = fetch_requirements (\<lambda>u c st. None) twice_env a_b_url None
                   (format_commit twice_env (JStr ''main'')) st1"
    using default_branch_fallback
          [of a_b_url None initial_state twice_env "''/a/b''" "''a''" "''b''" "[]"
              "Response 200 [] (Some (JObj [(''default_branch'', JStr ''main'')]))"
              "\<lambda>u c st. None"]
        one_line_env_facts twice_env_facts
    by (simp add: initial_state_def)
  from failing answered one_line_env_facts one_line_run twice_env_facts
  show ?thesis by blast
qed

subsection \<open>What a visit does to the state\<close>

lemma extends_refl [simp]: "extends st st"
  by (simp add: extends_def)

lemma extends_trans: "extends a b \<Longrightarrow> extends b c \<Longrightarrow> extends a c"
  by (auto simp: extends_def)

lemma extends_print [simp]: "extends st (emit (Print m) st)"
  by (simp add: extends_def traversal_inv_def)

lemma extends_info [simp]: "extends st (emit (GetRepoInfo a) st)"
  by (simp add: extends_def traversal_inv_def)

lemma extends_dict [simp]: "extends st (st\<lparr>dependency_dict := d\<rparr>)"
  by (simp add: extends_def traversal_inv_def)

lemma extends_url [simp]: "extends st (st\<lparr>url_requirements := x\<rparr>)"
  by (simp add: extends_def traversal_inv_def)

lemma fetched_subset_marked: "visits_once tr \<Longrightarrow> fetched tr \<subseteq> marked tr"
  by (induction tr rule: visits_once.induct) auto

lemma get_default_branch_quiet:
  "get_default_branch e u st = (r, st') \<Longrightarrow> quiet_step st st'"
  by (auto simp: get_default_branch_def Let_def quiet_step_def
      split: option.splits if_splits response.splits json.splits)

lemma process_line_extends:
  assumes rec: "\<forall>gu gc s res s'. recurse gu gc s = Some (res, s') \<longrightarrow> extends s s'"
    and run: "process_line recurse e u l st = Some (res, st')"
  shows "extends st st'"
  using run
  by (auto simp: process_line_def Let_def dest: rec [rule_format]
      split: if_splits requirement.splits option.splits prod.splits)

lemma process_lines_extends:
  assumes rec: "\<forall>gu gc s res s'. recurse gu gc s = Some (res, s') \<longrightarrow> extends s s'"
  shows "process_lines recurse e u ls st = Some (res, st') \<Longrightarrow> extends st st'"
proof (induction ls arbitrary: st)
  case Nil
  then show ?case by simp
next
  case (Cons l ls)
  from Cons.prems obtain r1 s1 where
    l: "process_line recurse e u l st = Some (r1, s1)"
    by (auto split: option.splits)
  have 1: "extends st s1" by (rule process_line_extends [OF rec l])
  show ?case
  proof (cases r1)
    case (Return x)
    with Cons.prems l have "process_lines recurse e u ls s1 = Some (res, st')" by simp
    then have "extends s1 st'" by (rule Cons.IH)
    with 1 show ?thesis by (rule extends_trans)
  next
    case Raise
    with Cons.prems l have "st' = s1" by simp
    with 1 show ?thesis by simp
  qed
qed

lemma quiet_step_extends: "quiet_step a b \<Longrightarrow> extends a b"
  by (auto simp: quiet_step_def extends_def traversal_inv_def)

lemma fetch_requirements_extends:
  assumes rec: "\<forall>gu gc s res s'. recurse gu gc s = Some (res, s') \<longrightarrow> extends s s'"
    and run: "fetch_requirements recurse e u c b st = Some (res, st')"
    and k: "traversal_inv st \<longrightarrow> (u, c) \<in> marked (trace st) \<and> (u, c) \<notin> fetched (trace st)"
  shows "extends st st'"
proof (cases "raw_requirements_url e u b")
  case None
  with run show ?thesis by (simp add: fetch_requirements_def)
next
  case (Some raw)
  let ?st1 = "emit (GetManifest (u, c) raw) st"
  have e1: "extends st ?st1"
    using k by (auto simp: extends_def traversal_inv_def)
  show ?thesis
  proof (cases "http_get e raw")
    case ConnectionError
    with run Some have "st' = emit (Print (ErrorFetchingRequirements u)) ?st1"
      by (simp add: fetch_requirements_def Let_def)
    then show ?thesis by (auto intro: extends_trans [OF e1])
  next
    case (Response code body js)
    show ?thesis
    proof (cases "code = 200")
      case False
      with run Some Response
      have "st' = emit (Print (NoRequirementsFound u b code)) ?st1"
        by (simp add: fetch_requirements_def Let_def)
      then show ?thesis by (auto intro: extends_trans [OF e1])
    next
      case True
      with run Some Response obtain r2 s2 where
        ls: "process_lines recurse e u (splitlines body) ?st1 = Some (r2, s2)"
        and st': "st' = s2 \<or> st' = emit (Print (ErrorFetchingRequirements u)) s2"
        by (auto simp: fetch_requirements_def Let_def split: option.splits result.splits)
      have "extends ?st1 s2" by (rule process_lines_extends [OF rec ls])
      with e1 have "extends st s2" by (rule extends_trans)
      with st' show ?thesis by (auto intro: extends_trans)
    qed
  qed
qed

lemma extends_visited: "extends a b \<Longrightarrow> k \<in> visited_repos a \<Longrightarrow> k \<in> visited_repos b"
  by (auto simp: extends_def)

lemma visit_repo_extends:
  assumes rec: "\<forall>gu gc s res s'. recurse gu gc s = Some (res, s') \<longrightarrow> extends s s'"
    and run: "visit_repo recurse e u c st = Some (res, st')"
  shows "extends st st' \<and> (u \<noteq> [] \<longrightarrow> (u, c) \<in> visited_repos st')"
proof (cases "u = [] \<or> (u, c) \<in> visited_repos st")
  case True
  with run show ?thesis by (auto simp: visit_repo_def Let_def split: if_splits)
next
  case False
  let ?st1 = "emit (MarkVisited (u, c)) (st\<lparr>visited_repos := insert (u, c) (visited_repos st)\<rparr>)"
  have e1: "extends st ?st1"
    using False by (auto simp: extends_def traversal_inv_def)
  have k1: "(u, c) \<in> visited_repos ?st1" by simp
  have f1: "traversal_inv ?st1 \<longrightarrow> (u, c) \<in> marked (trace ?st1) \<and> (u, c) \<notin> fetched (trace ?st1)"
    using False fetched_subset_marked [of "trace st"] by (auto simp: traversal_inv_def)
  have "extends ?st1 st'"
  proof (cases "c = None \<or> c = Some []")
    case unset: True
    obtain r st2 where g: "get_default_branch e u ?st1 = (r, st2)"
      by (cases "get_default_branch e u ?st1")
    then have q: "quiet_step ?st1 st2" by (rule get_default_branch_quiet)
    then have e2: "extends ?st1 st2" by (rule quiet_step_extends)
    from q f1
    have f2: "traversal_inv st2 \<longrightarrow> (u, c) \<in> marked (trace st2) \<and> (u, c) \<notin> fetched (trace st2)"
      by (auto simp: quiet_step_def traversal_inv_def)
    show ?thesis
    proof (cases r)
      case Raise
      with run False unset g have "st' = st2" by (auto simp: visit_repo_def Let_def)
      with e2 show ?thesis by simp
    next
      case (Return branch)
      show ?thesis
      proof (cases "truthy branch")
        case False
        with run \<open>\<not> (u = [] \<or> (u, c) \<in> visited_repos st)\<close> unset g Return
        have "st' = emit (Print (SkippingRepository u)) st2"
          by (auto simp: visit_repo_def Let_def)
        then show ?thesis by (auto intro: extends_trans [OF e2])
      next
        case True
        with run False unset g Return
        have "fetch_requirements recurse e u c (format_commit e branch) st2 = Some (res, st')"
          by (auto simp: visit_repo_def Let_def)
        then have "extends st2 st'" using f2 by (rule fetch_requirements_extends [OF rec])
        with e2 show ?thesis by (rule extends_trans)
      qed
    qed
  next
    case given: False
    with run False
    have "fetch_requirements recurse e u c (the c) ?st1 = Some (res, st')"
      by (auto simp: visit_repo_def Let_def)
    then show ?thesis using f1 by (rule fetch_requirements_extends [OF rec])
  qed
  with e1 have "extends st st'" by (rule extends_trans)
  moreover from \<open>extends ?st1 st'\<close> k1 have "(u, c) \<in> visited_repos st'"
    by (rule extends_visited)
  ultimately show ?thesis by simp
qed

lemma process_requirements_from_repo_extends:
  "process_requirements_from_repo fuel e u c st = Some (res, st') \<Longrightarrow>
   extends st st' \<and> (u \<noteq> [] \<longrightarrow> (u, c) \<in> visited_repos st')"
proof (induction fuel arbitrary: u c st res st')
  case 0
  then show ?case by simp
next
  case (Suc fuel)
  have rec: "\<forall>gu gc s res s'.
      process_requirements_from_repo fuel e gu gc s = Some (res, s') \<longrightarrow> extends s s'"
    using Suc.IH by blast
  from Suc.prems
  have "visit_repo (\<lambda>u c. process_requirements_from_repo fuel e u c) e u c st = Some (res, st')"
    by simp
  then show ?case by (rule visit_repo_extends [OF rec])
qed

lemma process_entry_extends:
  "process_entry fuel e repo st = Some (res, st') \<Longrightarrow> extends st st'"
  by (auto simp: process_entry_def dest: process_requirements_from_repo_extends
      split: json.splits option.splits if_splits)

lemma process_repos_extends:
  "process_repos fuel e repos st = Some (res, st') \<Longrightarrow> extends st st'"
proof (induction repos arbitrary: st)
  case Nil
  then show ?case by simp
next
  case (Cons repo repos)
  from Cons.prems obtain r1 s1 where
    first: "process_entry fuel e repo st = Some (r1, s1)"
    by (auto split: option.splits)
  have e1: "extends st s1" using first by (rule process_entry_extends)
  show ?case
  proof (cases r1)
    case (Return x)
    with Cons.prems first have "process_repos fuel e repos s1 = Some (res, st')" by simp
    then have "extends s1 st'" by (rule Cons.IH)
    with e1 show ?thesis by (rule extends_trans)
  next
    case Raise
    with Cons.prems first have "st' = s1" by simp
    with e1 show ?thesis by simp
  qed
qed

lemma traversal_inv_initial: "traversal_inv initial_state"
  by (simp add: traversal_inv_def initial_state_def)

lemma consolidate_traversal_inv:
  assumes "consolidate_requirements fuel e file = Some (out, st)"
  shows "traversal_inv st"
proof (cases "\<exists>repos. file = Some (JArr repos)")
  case False
  with assms have "st = emit (Print ErrorReadingJSON) initial_state"
    by (auto simp: consolidate_requirements_def split: option.splits json.splits)
  then show ?thesis using traversal_inv_initial by (simp add: traversal_inv_def)
next
  case True
  then obtain repos where "file = Some (JArr repos)" by blast
  with assms obtain r s where
    run: "process_repos fuel e repos initial_state = Some (r, s)"
    and st: "st = s \<or> st = emit (Print Generated) s"
    by (auto simp: consolidate_requirements_def split: option.splits result.splits)
  from process_repos_extends [OF run] traversal_inv_initial have "traversal_inv s"
    by (simp add: extends_def)
  with st show ?thesis by (auto simp: traversal_inv_def)
qed

subsection \<open>One visit for each key\<close>

text \<open>
  C2, as the claim states it, fails: the key is formed in line 37, before line 46
  resolves an unset commit. For the input of a repository with an empty commit
  and the same repository at \<^verbatim>\<open>main\<close>, where the API names \<^verbatim>\<open>main\<close> as the
  default branch, the two entries have different keys and the manifest at
  \<^verbatim>\<open>main\<close> is requested twice.
\<close>

theorem same_commit_fetched_twice:
  "consolidate_requirements 1 twice_env twice_input =
     Some (Written [''foo>=1.0''],
           \<lparr>dependency_dict = [(''foo'', {''>=1.0''})],
            url_requirements = {},
            visited_repos = {(a_b_url, Some ''main''), (a_b_url, Some [])},
            trace = [Print Generated,
                     GetManifest (a_b_url, Some ''main'') a_b_main_raw,
                     MarkVisited (a_b_url, Some ''main''),
                     GetManifest (a_b_url, Some []) a_b_main_raw,
                     GetRepoInfo (api_url ''a'' ''b''),
                     MarkVisited (a_b_url, Some [])]\<rparr>)
   \<and> manifest_requests
        [Print Generated,
         GetManifest (a_b_url, Some ''main'') a_b_main_raw,
         MarkVisited (a_b_url, Some ''main''),
         GetManifest (a_b_url, Some []) a_b_main_raw,
         GetRepoInfo (api_url ''a'' ''b''),
         MarkVisited (a_b_url, Some [])]
       = [a_b_main_raw, a_b_main_raw]"
  by code_simp

lemma visited_key_returns:
  assumes "(u, c) \<in> visited_repos st"
    and "process_requirements_from_repo fuel e u c st = Some (res, st')"
  shows "res = Return () \<and> st' = st"
  using assms by (cases fuel) (auto simp: visit_repo_def Let_def split: if_splits)

text \<open>
  C2, amended. The key is the URL and the commit as the function receives them.
  A call that starts in a state whose trace is in order (no key marked twice, a
  manifest requested only for a key marked before, and once at most) ends in
  such a state; \<^verbatim>\<open>visited_repos\<close> only grows and holds the key of the call
  afterwards; and a call on a key already visited returns at once, with the
  state as it was: no request, no mark, no change.
\<close>

theorem visit_marks_before_fetching:
  assumes "visits_once (trace st)" and "marked (trace st) = visited_repos st"
    and "process_requirements_from_repo fuel e u c st = Some (res, st')"
  shows "visits_once (trace st') \<and> marked (trace st') = visited_repos st'
         \<and> visited_repos st \<subseteq> visited_repos st'
         \<and> (u \<noteq> [] \<longrightarrow> (u, c) \<in> visited_repos st')
         \<and> ((u, c) \<in> visited_repos st \<longrightarrow> res = Return () \<and> st' = st)"
  using assms process_requirements_from_repo_extends [OF assms(3)] visited_key_returns
  by (auto simp: extends_def traversal_inv_def)

lemma two_line_visit:
  "process_requirements_from_repo 1 two_line_env a_b_url (Some ''main'') initial_state
     = Some (Return (), two_line_state)
   \<and> process_requirements_from_repo 1 two_line_env a_b_url (Some ''main'') two_line_state
     = Some (Return (), two_line_state)
   \<and> visits_once (trace initial_state)
   \<and> marked (trace initial_state) = visited_repos initial_state
   \<and> a_b_url \<noteq> []"
  by code_simp

theorem visit_marks_before_fetching_witness:
  "process_requirements_from_repo 1 two_line_env a_b_url (Some ''main'') initial_state
     = Some (Return (), two_line_state)
   \<and> visits_once (trace two_line_state)
   \<and> marked (trace two_line_state) = visited_repos two_line_state
   \<and> visited_repos initial_state \<subseteq> visited_repos two_line_state
   \<and> (a_b_url, Some ''main'') \<in> visited_repos two_line_state
   \<and> process_requirements_from_repo 1 two_line_env a_b_url (Some ''main'') two_line_state
     = Some (Return (), two_line_state)"
  using visit_marks_before_fetching
          [of initial_state 1 two_line_env a_b_url "Some ''main''" "Return ()" two_line_state]
        two_line_visit
  by simp

subsection \<open>Termination\<close>

lemma process_line_cases:
  "(\<exists>s. process_line recurse e u l st = Some (Return (), s) \<and> visited_repos s = visited_repos st)
   \<or> (\<exists>gu gc. parse_git_requirement (strip l) = Some (gu, gc)
        \<and> process_line recurse e u l st = recurse gu gc st)"
  by (auto simp: process_line_def Let_def split: requirement.splits option.splits)

lemma card_unvisited_mono:
  assumes "finite U" and "extends st st'"
  shows "card (U - visited_repos st') \<le> card (U - visited_repos st)"
  using assms by (auto simp: extends_def intro!: card_mono)

lemma process_lines_terminates:
  assumes fin: "finite U"
    and ext: "\<forall>gu gc s res s'. recurse gu gc s = Some (res, s') \<longrightarrow> extends s s'"
    and rec: "\<forall>gu gc s. (gu, gc) \<in> U \<longrightarrow> card (U - visited_repos s) < n
                \<longrightarrow> (\<exists>r. recurse gu gc s = Some r)"
  shows "(\<forall>l \<in> set ls. \<forall>k. parse_git_requirement (strip l) = Some k \<longrightarrow> k \<in> U)
     \<Longrightarrow> card (U - visited_repos st) < n
     \<Longrightarrow> \<exists>r. process_lines recurse e u ls st = Some r"
proof (induction ls arbitrary: st)
  case Nil
  then show ?case by simp
next
  case (Cons l ls)
  have "\<exists>r1 s1. process_line recurse e u l st = Some (r1, s1)"
  proof -
    from process_line_cases [of recurse e u l st]
    show ?thesis
    proof
      assume "\<exists>s. process_line recurse e u l st = Some (Return (), s)
                \<and> visited_repos s = visited_repos st"
      then show ?thesis by blast
    next
      assume "\<exists>gu gc. parse_git_requirement (strip l) = Some (gu, gc)
                \<and> process_line recurse e u l st = recurse gu gc st"
      then obtain gu gc where
        link: "parse_git_requirement (strip l) = Some (gu, gc)"
        and call: "process_line recurse e u l st = recurse gu gc st"
        by blast
      from link Cons.prems(1) have "(gu, gc) \<in> U" by simp
      with rec Cons.prems(2) obtain r where "recurse gu gc st = Some r" by blast
      with call show ?thesis by (cases r) simp
    qed
  qed
  then obtain r1 s1 where first: "process_line recurse e u l st = Some (r1, s1)" by blast
  have "extends st s1" by (rule process_line_extends [OF ext first])
  with fin have "card (U - visited_repos s1) \<le> card (U - visited_repos st)"
    by (rule card_unvisited_mono)
  with Cons.prems(2) have small: "card (U - visited_repos s1) < n" by simp
  show ?case
  proof (cases r1)
    case Raise
    with first show ?thesis by simp
  next
    case (Return x)
    from Cons.prems(1) have "\<forall>l \<in> set ls. \<forall>k. parse_git_requirement (strip l) = Some k \<longrightarrow> k \<in> U"
      by simp
    from Cons.IH [OF this small] obtain r where "process_lines recurse e u ls s1 = Some r"
      by blast
    with first Return show ?thesis by simp
  qed
qed

lemma git_links_member:
  assumes "l \<in> set (splitlines body)" and "parse_git_requirement (strip l) = Some k"
  shows "k \<in> set (git_links body)"
  using assms by (force simp: git_links_def List.map_filter_def)

lemma closed_under_linksD:
  assumes "closed_under_links e U" and "(u, c) \<in> U"
    and "raw_requirements_url e u b = Some raw" and "http_get e raw = Response code body js"
    and "code = 200"
  shows "set (git_links body) \<subseteq> U"
proof -
  from assms(1,2)
  have "\<forall>b raw body js. raw_requirements_url e u b = Some raw
          \<longrightarrow> http_get e raw = Response 200 body js \<longrightarrow> set (git_links body) \<subseteq> U"
    unfolding closed_under_links_def by blast
  with assms(3-5) show ?thesis by blast
qed

lemma fetch_requirements_terminates:
  assumes fin: "finite U"
    and ext: "\<forall>gu gc s res s'. recurse gu gc s = Some (res, s') \<longrightarrow> extends s s'"
    and rec: "\<forall>gu gc s. (gu, gc) \<in> U \<longrightarrow> card (U - visited_repos s) < n
                \<longrightarrow> (\<exists>r. recurse gu gc s = Some r)"
    and closed: "closed_under_links e U" and k: "(u, c) \<in> U"
    and small: "card (U - visited_repos st) < n"
  shows "\<exists>r. fetch_requirements recurse e u c b st = Some r"
proof (cases "raw_requirements_url e u b")
  case None
  then show ?thesis by (simp add: fetch_requirements_def)
next
  case (Some raw)
  show ?thesis
  proof (cases "http_get e raw")
    case ConnectionError
    with Some show ?thesis by (simp add: fetch_requirements_def Let_def)
  next
    case (Response code body js)
    show ?thesis
    proof (cases "code = 200")
      case False
      with Some Response show ?thesis by (simp add: fetch_requirements_def Let_def)
    next
      case True
      from closed k Some Response True have "set (git_links body) \<subseteq> U"
        by (rule closed_under_linksD)
      then have links: "\<forall>l \<in> set (splitlines body). \<forall>k.
          parse_git_requirement (strip l) = Some k \<longrightarrow> k \<in> U"
        using git_links_member by blast
      let ?st1 = "emit (GetManifest (u, c) raw) st"
      from small have "card (U - visited_repos ?st1) < n" by simp
      from process_lines_terminates [OF fin ext rec links this]
      obtain r where "process_lines recurse e u (splitlines body) ?st1 = Some r" by blast
      with Some Response True show ?thesis
        by (cases r) (auto simp: fetch_requirements_def Let_def split: result.splits)
    qed
  qed
qed

lemma visit_repo_terminates:
  assumes fin: "finite U"
    and ext: "\<forall>gu gc s res s'. recurse gu gc s = Some (res, s') \<longrightarrow> extends s s'"
    and rec: "\<forall>gu gc s. (gu, gc) \<in> U \<longrightarrow> card (U - visited_repos s) < n
                \<longrightarrow> (\<exists>r. recurse gu gc s = Some r)"
    and closed: "closed_under_links e U" and k: "(u, c) \<in> U"
    and small: "card (U - visited_repos st) < Suc n"
  shows "\<exists>r. visit_repo recurse e u c st = Some r"
proof (cases "u = [] \<or> (u, c) \<in> visited_repos st")
  case True
  then show ?thesis by (auto simp: visit_repo_def Let_def)
next
  case False
  let ?st1 = "emit (MarkVisited (u, c)) (st\<lparr>visited_repos := insert (u, c) (visited_repos st)\<rparr>)"
  from False k have "U - visited_repos ?st1 \<subset> U - visited_repos st" by auto
  with fin have "card (U - visited_repos ?st1) < card (U - visited_repos st)"
    by (intro psubset_card_mono) auto
  with small have small1: "card (U - visited_repos ?st1) < n" by simp
  show ?thesis
  proof (cases "c = None \<or> c = Some []")
    case given: False
    from fetch_requirements_terminates [OF fin ext rec closed k small1]
    obtain r where "fetch_requirements recurse e u c (the c) ?st1 = Some r" by blast
    with False given show ?thesis by (auto simp: visit_repo_def Let_def)
  next
    case unset: True
    obtain r st2 where g: "get_default_branch e u ?st1 = (r, st2)"
      by (cases "get_default_branch e u ?st1")
    then have "quiet_step ?st1 st2" by (rule get_default_branch_quiet)
    with small1 have small2: "card (U - visited_repos st2) < n" by (simp add: quiet_step_def)
    show ?thesis
    proof (cases r)
      case Raise
      with False unset g show ?thesis by (auto simp: visit_repo_def Let_def)
    next
      case (Return branch)
      from fetch_requirements_terminates [OF fin ext rec closed k small2]
      obtain r' where "fetch_requirements recurse e u c (format_commit e branch) st2 = Some r'"
        by blast
      with False unset g Return show ?thesis by (auto simp: visit_repo_def Let_def)
    qed
  qed
qed

lemma enough_fuel:
  assumes fin: "finite U" and closed: "closed_under_links e U"
  shows "(u, c) \<in> U \<Longrightarrow> card (U - visited_repos st) < fuel
     \<Longrightarrow> \<exists>r. process_requirements_from_repo fuel e u c st = Some r"
proof (induction fuel arbitrary: u c st)
  case 0
  then show ?case by simp
next
  case (Suc fuel)
  have ext: "\<forall>gu gc s res s'.
      process_requirements_from_repo fuel e gu gc s = Some (res, s') \<longrightarrow> extends s s'"
    using process_requirements_from_repo_extends by blast
  have rec: "\<forall>gu gc s. (gu, gc) \<in> U \<longrightarrow> card (U - visited_repos s) < fuel
      \<longrightarrow> (\<exists>r. process_requirements_from_repo fuel e gu gc s = Some r)"
    using Suc.IH by blast
  from visit_repo_terminates [OF fin ext rec closed Suc.prems]
  show ?case by simp
qed

lemma visited_after_call:
  assumes "process_requirements_from_repo fuel e u c st = Some (res, st')" and "u \<noteq> []"
  shows "(u, c) \<in> visited_repos st'"
  using process_requirements_from_repo_extends [OF assms(1)] assms(2) by simp

lemma process_entry_terminates:
  assumes fin: "finite U" and closed: "closed_under_links e U"
    and key: "\<forall>k. entry_key repo = Some k \<longrightarrow> k \<in> U"
    and small: "card (U - visited_repos st) < fuel"
  shows "\<exists>r. process_entry fuel e repo st = Some r"
proof (cases "entry_key repo")
  case None
  then show ?thesis
    by (auto simp: process_entry_def entry_key_def split: json.splits option.splits if_splits)
next
  case (Some k)
  then obtain items u commit_hash where
    repo: "repo = JObj items" "map_of items ''repo'' = Some (JStr u)"
      "entry_commit items = Some commit_hash" "u \<noteq> []" "k = (u, Some commit_hash)"
    by (auto simp: entry_key_def split: json.splits option.splits if_splits)
  from key Some repo have "(u, Some commit_hash) \<in> U" by simp
  from enough_fuel [OF fin closed this small] repo show ?thesis
    by (simp add: process_entry_def)
qed

lemma process_entry_visits:
  assumes "process_entry fuel e repo st = Some (Return x, st')" and "entry_key repo = Some k"
  shows "k \<in> visited_repos st'"
  using assms
  by (auto simp: process_entry_def entry_key_def dest: visited_after_call
      split: json.splits option.splits if_splits)

lemma process_repos_terminates:
  assumes fin: "finite U" and closed: "closed_under_links e U"
  shows "set (List.map_filter entry_key repos) \<subseteq> U \<Longrightarrow> card (U - visited_repos st) < fuel
     \<Longrightarrow> \<exists>r. process_repos fuel e repos st = Some r"
proof (induction repos arbitrary: st)
  case Nil
  then show ?case by simp
next
  case (Cons repo repos)
  from Cons.prems(1) have key: "\<forall>k. entry_key repo = Some k \<longrightarrow> k \<in> U"
    and others: "set (List.map_filter entry_key repos) \<subseteq> U"
    by (auto split: option.splits)
  from process_entry_terminates [OF fin closed key Cons.prems(2)]
  obtain r1 s1 where first: "process_entry fuel e repo st = Some (r1, s1)" by auto
  then have "extends st s1" by (rule process_entry_extends)
  with fin have "card (U - visited_repos s1) \<le> card (U - visited_repos st)"
    by (rule card_unvisited_mono)
  with Cons.prems(2) have "card (U - visited_repos s1) < fuel" by simp
  from Cons.IH [OF others this] obtain r where "process_repos fuel e repos s1 = Some r"
    by blast
  with first show ?case by (cases r1) auto
qed

lemma process_repos_visits:
  "process_repos fuel e repos st = Some (Return x, st')
   \<Longrightarrow> set (List.map_filter entry_key repos) \<subseteq> visited_repos st'"
proof (induction repos arbitrary: st)
  case Nil
  then show ?case by simp
next
  case (Cons repo repos)
  from Cons.prems obtain y s1 where
    first: "process_entry fuel e repo st = Some (Return y, s1)"
    and others: "process_repos fuel e repos s1 = Some (Return x, st')"
    by (auto split: option.splits result.splits)
  from others have ext: "extends s1 st'" by (rule process_repos_extends)
  have "\<forall>k. entry_key repo = Some k \<longrightarrow> k \<in> visited_repos st'"
    using process_entry_visits [OF first] extends_visited [OF ext] by blast
  with Cons.IH [OF others] show ?case by (auto split: option.splits)
qed

lemma consolidate_terminates:
  assumes fin: "finite U" and closed: "closed_under_links e U" and keys: "input_keys file \<subseteq> U"
  shows "\<exists>r. consolidate_requirements (Suc (card U)) e file = Some r"
proof (cases "\<exists>repos. file = Some (JArr repos)")
  case False
  then show ?thesis
    by (auto simp: consolidate_requirements_def split: option.splits json.splits)
next
  case True
  then obtain repos where f: "file = Some (JArr repos)" by blast
  with keys have roots: "set (List.map_filter entry_key repos) \<subseteq> U"
    by (simp add: input_keys_def)
  have "card (U - visited_repos initial_state) < Suc (card U)"
    by (simp add: initial_state_def)
  from process_repos_terminates [OF fin closed roots this]
  obtain r where "process_repos (Suc (card U)) e repos initial_state = Some r" by blast
  with f show ?thesis
    by (cases r) (auto simp: consolidate_requirements_def split: result.splits)
qed

lemma consolidate_visits_input:
  assumes "consolidate_requirements fuel e file = Some (Written ls, st)"
  shows "input_keys file \<subseteq> visited_repos st"
  using assms
  by (auto simp: consolidate_requirements_def input_keys_def dest!: process_repos_visits
      split: option.splits json.splits result.splits prod.splits)

text \<open>
  Termination. Let \<open>U\<close> be a finite set of keys that holds the keys of the input
  and, for each of its repositories, the keys its manifest refers to (a cycle of
  references is such a set). Then the run ends, with the recursion no deeper
  than the size of \<open>U\<close> plus one. In its trace no key is marked visited twice, a
  manifest is requested only for a key marked before and once at most, the keys
  marked are those of \<^verbatim>\<open>visited_repos\<close>, and when the run ends normally every
  key of the input is among them. A key is the pair of line 37: the URL and the
  commit as the function receives them, before line 44 resolves an unset one.
  Nothing is said of the keys that only a manifest refers to: an exception that
  line 89 catches ends the reading of a manifest, and the references on its
  remaining lines are not followed.
\<close>

theorem traversal_terminates:
  assumes "finite U" and "closed_under_links e U" and "input_keys file \<subseteq> U"
  shows "\<exists>out st. consolidate_requirements (Suc (card U)) e file = Some (out, st)
           \<and> visits_once (trace st) \<and> marked (trace st) = visited_repos st
           \<and> (\<forall>ls. out = Written ls \<longrightarrow> input_keys file \<subseteq> visited_repos st)"
proof -
  from consolidate_terminates [OF assms] obtain out st where
    run: "consolidate_requirements (Suc (card U)) e file = Some (out, st)" by auto
  from consolidate_traversal_inv [OF run]
  have "visits_once (trace st) \<and> marked (trace st) = visited_repos st"
    by (simp add: traversal_inv_def)
  moreover have "\<forall>ls. out = Written ls \<longrightarrow> input_keys file \<subseteq> visited_repos st"
    using run consolidate_visits_input by blast
  ultimately show ?thesis using run by blast
qed

lemma example_env_200:
  assumes "http_get (example_env pages) raw = Response 200 body js"
  shows "(raw, Response 200 body js) \<in> set pages"
  using assms by (auto simp: example_env_def split: option.splits dest: map_of_SomeD)

lemma cycle_links:
  "set (git_links ''git+https://github.com/c/d@main'') \<subseteq> cycle_keys
   \<and> set (git_links ''git+https://github.com/a/b@main\<newline>foo>=1.0'') \<subseteq> cycle_keys"
  by code_simp

lemma cycle_closed: "closed_under_links cycle_env cycle_keys"
  unfolding closed_under_links_def
proof (intro ballI, clarify)
  fix u c b raw body js x y
  assume "http_get cycle_env raw = Response 200 body js"
  then have "(raw, Response 200 body js) \<in> set
     [(a_b_main_raw, manifest ''git+https://github.com/c/d@main''),
      (c_d_main_raw, manifest ''git+https://github.com/a/b@main\<newline>foo>=1.0'')]"
    unfolding cycle_env_def by (rule example_env_200)
  then have "body = ''git+https://github.com/c/d@main''
      \<or> body = ''git+https://github.com/a/b@main\<newline>foo>=1.0''"
    by (auto simp: manifest_def)
  moreover assume "(x, y) \<in> set (git_links body)"
  ultimately show "(x, y) \<in> cycle_keys" using cycle_links by blast
qed

lemma cycle_finite: "finite cycle_keys"
  by (simp add: cycle_keys_def)

lemma cycle_input: "input_keys a_b_main \<subseteq> cycle_keys"
  by code_simp

lemma cycle_run:
  "consolidate_requirements 3 cycle_env a_b_main =
   Some (Written [''foo>=1.0''],
         \<lparr>dependency_dict = [(''foo'', {''>=1.0''})],
          url_requirements = {},
          visited_repos = {(c_d_url, Some ''main''), (a_b_url, Some ''main'')},
          trace = [Print Generated,
                   GetManifest (c_d_url, Some ''main'') c_d_main_raw,
                   MarkVisited (c_d_url, Some ''main''),
                   GetManifest (a_b_url, Some ''main'') a_b_main_raw,
                   MarkVisited (a_b_url, Some ''main'')]\<rparr>)"
  by code_simp

lemma cycle_env_terminates:
  "finite cycle_keys \<and> closed_under_links cycle_env cycle_keys
   \<and> input_keys a_b_main \<subseteq> cycle_keys
   \<and> (\<exists>out st. consolidate_requirements (Suc (card cycle_keys)) cycle_env a_b_main = Some (out, st)
           \<and> visits_once (trace st) \<and> marked (trace st) = visited_repos st
           \<and> (\<forall>ls. out = Written ls \<longrightarrow> input_keys a_b_main \<subseteq> visited_repos st))"
  using traversal_terminates [of cycle_keys cycle_env a_b_main] cycle_closed cycle_input cycle_finite
  by blast

text \<open>
  C3. The run on a cycle ends, but a pair of repository and revision can be
  visited twice. The input names a/b with no commit, which line 132 turns into
  the empty string; the manifest of a/b refers to c/d and that of c/d back to
  a/b, both with no revision, which \<^verbatim>\<open>parse_git_requirement\<close> returns as
  \<^verbatim>\<open>None\<close>. Line 44 takes the empty string and \<^verbatim>\<open>None\<close> alike for an unset
  commit and resolves both to \<^verbatim>\<open>main\<close>, but line 37 has formed the key before,
  so \<^verbatim>\<open>(a/b, '')\<close> and \<^verbatim>\<open>(a/b, None)\<close> are two keys; and the test of line 80
  looks for the bare URL in a set of pairs and never finds it. The run ends with
  three keys visited for two repositories, after the manifest of a/b at \<^verbatim>\<open>main\<close>
  was requested and read twice, against the comment of line 36.
\<close>

theorem cycle_root_fetched_twice:
  "map_option (\<lambda>r. (fst r, visited_repos (snd r), manifest_requests (trace (snd r))))
     (consolidate_requirements 4 plain_cycle_env no_commit_input)
   = Some (Written [],
           {(a_b_url, None), (c_d_url, None), (a_b_url, Some [])},
           [a_b_main_raw, c_d_main_raw, a_b_main_raw])"
  by code_simp

subsection \<open>The result does not depend on the bound\<close>

lemma process_line_mono:
  assumes "\<forall>gu gc s x s'. r1 gu gc s = Some (x, s') \<longrightarrow> r2 gu gc s = Some (x, s')"
    and "process_line r1 e u l st = Some (x, st')"
  shows "process_line r2 e u l st = Some (x, st')"
  using assms
  by (auto simp: process_line_def Let_def split: if_splits requirement.splits option.splits)

lemma process_lines_mono:
  assumes sub: "\<forall>gu gc s x s'. r1 gu gc s = Some (x, s') \<longrightarrow> r2 gu gc s = Some (x, s')"
  shows "process_lines r1 e u ls st = Some (x, st')
         \<Longrightarrow> process_lines r2 e u ls st = Some (x, st')"
proof (induction ls arbitrary: st)
  case Nil
  then show ?case by simp
next
  case (Cons l ls)
  from Cons.prems obtain y s1 where first: "process_line r1 e u l st = Some (y, s1)"
    by (auto split: option.splits)
  then have first2: "process_line r2 e u l st = Some (y, s1)"
    by (rule process_line_mono [OF sub])
  show ?case
  proof (cases y)
    case Raise
    with Cons.prems first first2 show ?thesis by simp
  next
    case (Return z)
    with Cons.prems first have "process_lines r1 e u ls s1 = Some (x, st')" by simp
    then have "process_lines r2 e u ls s1 = Some (x, st')" by (rule Cons.IH)
    with first2 Return show ?thesis by simp
  qed
qed

lemma fetch_requirements_mono:
  assumes sub: "\<forall>gu gc s x s'. r1 gu gc s = Some (x, s') \<longrightarrow> r2 gu gc s = Some (x, s')"
    and run: "fetch_requirements r1 e u c b st = Some (x, st')"
  shows "fetch_requirements r2 e u c b st = Some (x, st')"
proof (cases "raw_requirements_url e u b")
  case None
  with run show ?thesis by (simp add: fetch_requirements_def)
next
  case (Some raw)
  show ?thesis
  proof (cases "http_get e raw")
    case ConnectionError
    with run Some show ?thesis by (simp add: fetch_requirements_def Let_def)
  next
    case (Response code body js)
    show ?thesis
    proof (cases "code = 200")
      case False
      with run Some Response show ?thesis by (simp add: fetch_requirements_def Let_def)
    next
      case True
      let ?st1 = "emit (GetManifest (u, c) raw) st"
      from run Some Response True obtain y s2 where
        ls: "process_lines r1 e u (splitlines body) ?st1 = Some (y, s2)"
        by (auto simp: fetch_requirements_def Let_def split: option.splits)
      then have "process_lines r2 e u (splitlines body) ?st1 = Some (y, s2)"
        by (rule process_lines_mono [OF sub])
      with ls run Some Response True show ?thesis
        by (simp add: fetch_requirements_def Let_def)
    qed
  qed
qed

lemma visit_repo_mono:
  assumes sub: "\<forall>gu gc s x s'. r1 gu gc s = Some (x, s') \<longrightarrow> r2 gu gc s = Some (x, s')"
    and run: "visit_repo r1 e u c st = Some (x, st')"
  shows "visit_repo r2 e u c st = Some (x, st')"
proof (cases "u = [] \<or> (u, c) \<in> visited_repos st")
  case True
  with run show ?thesis by (auto simp: visit_repo_def Let_def split: if_splits)
next
  case False
  let ?st1 = "emit (MarkVisited (u, c)) (st\<lparr>visited_repos := insert (u, c) (visited_repos st)\<rparr>)"
  show ?thesis
  proof (cases "c = None \<or> c = Some []")
    case given: False
    with run False have "fetch_requirements r1 e u c (the c) ?st1 = Some (x, st')"
      by (auto simp: visit_repo_def Let_def)
    then have "fetch_requirements r2 e u c (the c) ?st1 = Some (x, st')"
      by (rule fetch_requirements_mono [OF sub])
    with False given show ?thesis by (auto simp: visit_repo_def Let_def)
  next
    case unset: True
    obtain r st2 where g: "get_default_branch e u ?st1 = (r, st2)"
      by (cases "get_default_branch e u ?st1")
    show ?thesis
    proof (cases r)
      case Raise
      with run False unset g show ?thesis by (auto simp: visit_repo_def Let_def)
    next
      case (Return branch)
      show ?thesis
      proof (cases "truthy branch")
        case no: False
        with run False unset g Return show ?thesis by (auto simp: visit_repo_def Let_def)
      next
        case True
        with run False unset g Return
        have "fetch_requirements r1 e u c (format_commit e branch) st2 = Some (x, st')"
          by (auto simp: visit_repo_def Let_def)
        then have "fetch_requirements r2 e u c (format_commit e branch) st2 = Some (x, st')"
          by (rule fetch_requirements_mono [OF sub])
        with False unset g Return True show ?thesis by (auto simp: visit_repo_def Let_def)
      qed
    qed
  qed
qed

lemma more_fuel_Suc:
  "process_requirements_from_repo fuel e u c st = Some (x, st')
   \<Longrightarrow> process_requirements_from_repo (Suc fuel) e u c st = Some (x, st')"
proof (induction fuel arbitrary: u c st x st')
  case 0
  then show ?case by simp
next
  case (Suc fuel)
  have sub: "\<forall>gu gc s x s'. process_requirements_from_repo fuel e gu gc s = Some (x, s')
      \<longrightarrow> process_requirements_from_repo (Suc fuel) e gu gc s = Some (x, s')"
    using Suc.IH by blast
  from Suc.prems
  have "visit_repo (\<lambda>u c. process_requirements_from_repo fuel e u c) e u c st = Some (x, st')"
    by simp
  then have "visit_repo (\<lambda>u c. process_requirements_from_repo (Suc fuel) e u c) e u c st
      = Some (x, st')"
    by (rule visit_repo_mono [OF sub])
  then show ?case by simp
qed

lemma more_fuel:
  assumes "process_requirements_from_repo fuel e u c st = Some (x, st')"
  shows "process_requirements_from_repo (fuel + k) e u c st = Some (x, st')"
proof (induction k)
  case 0
  from assms show ?case by simp
next
  case (Suc k)
  then have "process_requirements_from_repo (Suc (fuel + k)) e u c st = Some (x, st')"
    by (rule more_fuel_Suc)
  then show ?case by simp
qed

lemma process_entry_more_fuel:
  assumes "process_entry fuel e repo st = Some (x, st')"
  shows "process_entry (fuel + k) e repo st = Some (x, st')"
proof (cases "entry_key repo")
  case None
  with assms show ?thesis
    by (auto simp: process_entry_def entry_key_def split: json.splits option.splits if_splits)
next
  case (Some key)
  then obtain items u commit_hash where
    repo: "repo = JObj items" "map_of items ''repo'' = Some (JStr u)"
      "entry_commit items = Some commit_hash" "u \<noteq> []"
    by (auto simp: entry_key_def split: json.splits option.splits if_splits)
  with assms have "process_requirements_from_repo fuel e u (Some commit_hash) st = Some (x, st')"
    by (simp add: process_entry_def)
  then have "process_requirements_from_repo (fuel + k) e u (Some commit_hash) st = Some (x, st')"
    by (rule more_fuel)
  with repo show ?thesis by (simp add: process_entry_def)
qed

lemma process_repos_more_fuel:
  "process_repos fuel e repos st = Some (x, st')
   \<Longrightarrow> process_repos (fuel + k) e repos st = Some (x, st')"
proof (induction repos arbitrary: st)
  case Nil
  then show ?case by simp
next
  case (Cons repo repos)
  from Cons.prems obtain y s1 where first: "process_entry fuel e repo st = Some (y, s1)"
    by (auto split: option.splits)
  then have first2: "process_entry (fuel + k) e repo st = Some (y, s1)"
    by (rule process_entry_more_fuel)
  show ?case
  proof (cases y)
    case Raise
    with Cons.prems first first2 show ?thesis by simp
  next
    case (Return z)
    with Cons.prems first have "process_repos fuel e repos s1 = Some (x, st')" by simp
    then have "process_repos (fuel + k) e repos s1 = Some (x, st')" by (rule Cons.IH)
    with first2 Return show ?thesis by simp
  qed
qed

lemma consolidate_more_fuel:
  assumes "consolidate_requirements fuel e file = Some (out, st)"
  shows "consolidate_requirements (fuel + k) e file = Some (out, st)"
proof (cases "\<exists>repos. file = Some (JArr repos)")
  case False
  with assms show ?thesis
    by (auto simp: consolidate_requirements_def split: option.splits json.splits)
next
  case True
  then obtain repos where f: "file = Some (JArr repos)" by blast
  with assms obtain x s where run: "process_repos fuel e repos initial_state = Some (x, s)"
    by (auto simp: consolidate_requirements_def split: option.splits)
  then have "process_repos (fuel + k) e repos initial_state = Some (x, s)"
    by (rule process_repos_more_fuel)
  with run assms f show ?thesis by (simp add: consolidate_requirements_def)
qed

text \<open>
  C5. A run starts from empty containers and its result is what
  \<^verbatim>\<open>consolidate_requirements\<close> computes from the input and the environment (the
  responses of the network among it). The bound on the depth of the recursion is
  the one other argument of the model, and it does not matter: two runs on the
  same input and environment that both end give the same file, and the same
  final state.
\<close>

theorem same_input_same_output:
  assumes "consolidate_requirements fuel1 e file = Some (out1, st1)"
    and "consolidate_requirements fuel2 e file = Some (out2, st2)"
  shows "out1 = out2 \<and> st1 = st2"
proof -
  from consolidate_more_fuel [OF assms(1), of fuel2]
  have "consolidate_requirements (fuel1 + fuel2) e file = Some (out1, st1)" .
  moreover from consolidate_more_fuel [OF assms(2), of fuel1]
  have "consolidate_requirements (fuel1 + fuel2) e file = Some (out2, st2)"
    by (simp add: add.commute)
  ultimately show ?thesis by simp
qed

lemma two_line_run_again:
  "consolidate_requirements 4 two_line_env a_b_main =
   Some (Written [''bar==2.0'', ''foo>=1.0''],
         \<lparr>dependency_dict = [(''foo'', {''>=1.0''}), (''bar'', {''==2.0''})],
          url_requirements = {},
          visited_repos = {(''https://github.com/a/b'', Some ''main'')},
          trace = [Print Generated,
                   GetManifest (''https://github.com/a/b'', Some ''main'')
                     ''https://raw.githubusercontent.com/a/b/main/requirements.txt'',
                   MarkVisited (''https://github.com/a/b'', Some ''main'')]\<rparr>)"
  by code_simp

theorem same_input_same_output_witness:
  "\<exists>out st. consolidate_requirements 1 two_line_env a_b_main = Some (out, st)
     \<and> consolidate_requirements 4 two_line_env a_b_main = Some (out, st)
     \<and> out = Written [''bar==2.0'', ''foo>=1.0'']"
proof -
  have "\<exists>out st. consolidate_requirements 4 two_line_env a_b_main = Some (out, st)"
    by (intro exI) (rule two_line_run_again)
  then obtain out st where
    again: "consolidate_requirements 4 two_line_env a_b_main = Some (out, st)"
    by blast
  from same_input_same_output [OF two_line_run again]
  have "Written [''bar==2.0'', ''foo>=1.0''] = out" by (rule conjunct1)
  moreover from same_input_same_output [OF again two_line_run]
  have "consolidate_requirements 1 two_line_env a_b_main = Some (out, st)"
    using two_line_run by blast
  ultimately show ?thesis using again by blast
qed

subsection \<open>The exit status\<close>

lemma get_default_branch_raises:
  assumes "get_default_branch e u st = (Raise, st')"
  shows "url_path e u = None"
  using assms
  by (auto simp: get_default_branch_def Let_def
      split: option.splits if_splits response.splits json.splits)

lemma fetch_requirements_raises:
  assumes "fetch_requirements recurse e u c b st = Some (Raise, st')"
  shows "raw_requirements_url e u b = None"
  using assms
  by (auto simp: fetch_requirements_def Let_def
      split: option.splits response.splits if_splits result.splits prod.splits)

lemma visit_repo_raises:
  assumes "visit_repo recurse e u c st = Some (Raise, st')"
  shows "\<not> accepted_url e u"
proof (cases "u = [] \<or> (u, c) \<in> visited_repos st")
  case True
  with assms show ?thesis by (auto simp: visit_repo_def Let_def split: if_splits)
next
  case False
  let ?st1 = "emit (MarkVisited (u, c)) (st\<lparr>visited_repos := insert (u, c) (visited_repos st)\<rparr>)"
  show ?thesis
  proof (cases "c = None \<or> c = Some []")
    case given: False
    with assms False have "fetch_requirements recurse e u c (the c) ?st1 = Some (Raise, st')"
      by (auto simp: visit_repo_def Let_def)
    then have "raw_requirements_url e u (the c) = None" by (rule fetch_requirements_raises)
    then show ?thesis by (auto simp: accepted_url_def)
  next
    case unset: True
    obtain r st2 where g: "get_default_branch e u ?st1 = (r, st2)"
      by (cases "get_default_branch e u ?st1")
    show ?thesis
    proof (cases r)
      case Raise
      with g have "url_path e u = None" by (auto dest: get_default_branch_raises)
      then show ?thesis by (simp add: accepted_url_def)
    next
      case (Return branch)
      with assms False unset g
      have "fetch_requirements recurse e u c (format_commit e branch) st2 = Some (Raise, st')"
        by (auto simp: visit_repo_def Let_def split: if_splits)
      then have "raw_requirements_url e u (format_commit e branch) = None"
        by (rule fetch_requirements_raises)
      then show ?thesis by (auto simp: accepted_url_def)
    qed
  qed
qed

lemma process_requirements_from_repo_raises:
  assumes "process_requirements_from_repo fuel e u c st = Some (Raise, st')"
  shows "\<not> accepted_url e u"
  using assms by (cases fuel) (auto dest: visit_repo_raises)

lemma process_entry_returns:
  assumes "well_formed_entry e repo" and "process_entry fuel e repo st = Some (x, st')"
  shows "x = Return ()"
proof (cases x)
  case (Return y)
  then show ?thesis by simp
next
  case Raise
  from assms(1) obtain items where
    repo: "repo = JObj items" "entry_commit items \<noteq> None"
    and url: "\<forall>v. map_of items ''repo'' = Some v \<longrightarrow>
               \<not> truthy v \<or> (\<exists>u. v = JStr u \<and> accepted_url e u)"
    by (auto simp: well_formed_entry_def)
  from repo obtain commit_hash where c: "entry_commit items = Some commit_hash" by auto
  show ?thesis
  proof (cases "map_of items ''repo''")
    case None
    with assms(2) repo c Raise show ?thesis by (simp add: process_entry_def)
  next
    case (Some v)
    show ?thesis
    proof (cases "truthy v")
      case False
      with assms(2) repo c Raise Some show ?thesis by (simp add: process_entry_def)
    next
      case True
      with url Some obtain u where v: "v = JStr u" and ok: "accepted_url e u" by blast
      with assms(2) repo c Raise Some True
      have "process_requirements_from_repo fuel e u (Some commit_hash) st = Some (Raise, st')"
        by (simp add: process_entry_def)
      with ok show ?thesis by (auto dest: process_requirements_from_repo_raises)
    qed
  qed
qed

lemma process_repos_returns:
  "\<forall>repo \<in> set repos. well_formed_entry e repo
   \<Longrightarrow> process_repos fuel e repos st = Some (x, st') \<Longrightarrow> x = Return ()"
proof (induction repos arbitrary: st)
  case Nil
  then show ?case by simp
next
  case (Cons repo repos)
  from Cons.prems(2) obtain y s1 where first: "process_entry fuel e repo st = Some (y, s1)"
    by (auto split: option.splits)
  from Cons.prems(1) have "well_formed_entry e repo" by simp
  from process_entry_returns [OF this first] have y: "y = Return ()" .
  with Cons.prems(2) first have "process_repos fuel e repos s1 = Some (x, st')" by simp
  moreover from Cons.prems(1) have "\<forall>repo \<in> set repos. well_formed_entry e repo" by simp
  ultimately show ?case using Cons.IH by blast
qed

text \<open>
  C7, amended. When the file cannot be read or holds no list, the run ends in
  \<^verbatim>\<open>sys.exit(1)\<close>. When it holds a list whose entries are all well formed (a
  dictionary, the commit a string or missing, the repository missing, false, or a
  string that \<^verbatim>\<open>urlparse\<close> and \<^verbatim>\<open>urljoin\<close> accept), and the repositories
  that can be reached are finitely many, the run ends and its exit status is 0,
  whatever the network answers: nothing is assumed of the responses but where
  the links of the manifests lead.
\<close>

theorem exit_status_of_run:
  assumes "finite U" and "closed_under_links e U" and "input_keys file \<subseteq> U"
  shows "((\<forall>repos. file \<noteq> Some (JArr repos)) \<longrightarrow>
            (\<exists>st. consolidate_requirements fuel e file = Some (SysExit 1, st)))
       \<and> (\<forall>repos. file = Some (JArr repos) \<and> (\<forall>repo \<in> set repos. well_formed_entry e repo) \<longrightarrow>
            (\<exists>out st. consolidate_requirements (Suc (card U)) e file = Some (out, st)
               \<and> exit_status out = 0))"
proof (intro conjI allI impI)
  assume "\<forall>repos. file \<noteq> Some (JArr repos)"
  then show "\<exists>st. consolidate_requirements fuel e file = Some (SysExit 1, st)"
    by (auto simp: consolidate_requirements_def split: option.splits json.splits)
next
  fix repos
  assume a: "file = Some (JArr repos) \<and> (\<forall>repo \<in> set repos. well_formed_entry e repo)"
  from consolidate_terminates [OF assms] obtain out st where
    run: "consolidate_requirements (Suc (card U)) e file = Some (out, st)" by auto
  with a obtain x s where
    loop: "process_repos (Suc (card U)) e repos initial_state = Some (x, s)"
    by (auto simp: consolidate_requirements_def split: option.splits)
  with a have "x = Return ()" using process_repos_returns by blast
  with run a loop have "exit_status out = 0"
    by (auto simp: consolidate_requirements_def)
  with run show "\<exists>out st. consolidate_requirements (Suc (card U)) e file = Some (out, st)
               \<and> exit_status out = 0"
    by blast
qed

text \<open>
  C7, as the claim states it, fails: the input \<^verbatim>\<open>["https://github.com/a/b"]\<close> is
  read and is a list, yet \<^verbatim>\<open>repo.get\<close> raises \<^verbatim>\<open>AttributeError\<close> in line 131,
  nothing catches it, and the interpreter exits with status 1.
\<close>

theorem list_of_strings_exits_1:
  "consolidate_requirements 1 (example_env []) strings_input = Some (Traceback, initial_state)
   \<and> exit_status Traceback = 1"
  by code_simp

lemma all_fail_facts:
  "input_keys a_b_main \<subseteq> {(a_b_url, Some ''main'')}
   \<and> url_path (example_env []) ''https://github.com/a/b'' \<noteq> None
   \<and> \<not> unclosed_bracket (replace ''github.com'' ''raw.githubusercontent.com'' ''https://github.com/a/b'' @ ''/'')"
  by code_simp

lemma all_fail_closed: "closed_under_links (example_env []) U"
  by (auto simp: closed_under_links_def example_env_def)

lemma all_fail_well_formed:
  "well_formed_entry (example_env [])
     (JObj [(''repo'', JStr ''https://github.com/a/b''), (''commit'', JStr ''main'')])"
  using all_fail_facts
  by (simp add: well_formed_entry_def accepted_url_def entry_commit_def
      raw_requirements_url_def example_env_def example_urljoin_def)

lemma all_fail_run:
  "consolidate_requirements 2 (example_env []) a_b_main =
   Some (Written [],
         \<lparr>dependency_dict = [], url_requirements = {},
          visited_repos = {(a_b_url, Some ''main'')},
          trace = [Print Generated,
                   Print (NoRequirementsFound a_b_url ''main'' 404),
                   GetManifest (a_b_url, Some ''main'') a_b_main_raw,
                   MarkVisited (a_b_url, Some ''main'')]\<rparr>)"
  by code_simp

theorem exit_status_of_run_witness:
  "(\<exists>st. consolidate_requirements 0 (example_env []) None = Some (SysExit 1, st))
   \<and> (\<exists>out st. consolidate_requirements (Suc (card {(a_b_url, Some ''main'')})) (example_env []) a_b_main
                  = Some (out, st)
         \<and> exit_status out = 0)
   \<and> http_get (example_env []) a_b_main_raw = Response 404 [] None"
proof -
  have fin: "finite {(a_b_url, Some ''main'')}" by simp
  have keys: "input_keys a_b_main \<subseteq> {(a_b_url, Some ''main'')}" using all_fail_facts by simp
  note t = exit_status_of_run [OF fin all_fail_closed keys]
  have "\<forall>repos. None \<noteq> Some (JArr repos)" by simp
  have 1: "\<exists>st. consolidate_requirements 0 (example_env []) None = Some (SysExit 1, st)"
    using exit_status_of_run [of "{}" "example_env []" None 0] all_fail_closed
    by (simp add: input_keys_def)
  have 2: "\<exists>out st. consolidate_requirements (Suc (card {(a_b_url, Some ''main'')})) (example_env []) a_b_main
                  = Some (out, st) \<and> exit_status out = 0"
    using t [of 0] all_fail_well_formed by (simp add: a_b_main_def)
  have 3: "http_get (example_env []) a_b_main_raw = Response 404 [] None"
    by (simp add: example_env_def)
  from 1 2 3 show ?thesis by blast
qed

subsection \<open>The order of the traversal\<close>

lemma merged_empty: "merged {} = Map.empty"
  by (auto simp: merged_def fun_eq_iff)

lemma merged_insert:
  "merged (insert (n, s) R) =
     (merged R)(n \<mapsto> (case merged R n of Some s0 \<Rightarrow> s0 \<union> s | None \<Rightarrow> s))"
proof
  fix m
  show "merged (insert (n, s) R) m =
     ((merged R)(n \<mapsto> (case merged R n of Some s0 \<Rightarrow> s0 \<union> s | None \<Rightarrow> s))) m"
  proof (cases "m = n")
    case False
    then show ?thesis by (auto simp: merged_def image_iff)
  next
    case True
    have "\<Union> {t. (n, t) \<in> insert (n, s) R} = \<Union> {t. (n, t) \<in> R} \<union> s" by auto
    moreover have "n \<notin> fst ` R \<Longrightarrow> \<Union> {t. (n, t) \<in> R} = {}" by (auto simp: image_iff)
    ultimately show ?thesis using True by (auto simp: merged_def)
  qed
qed

lemma map_of_merge_lowered:
  assumes "map_of dd = merged R"
  shows "map_of (merge_requirement req_name s dd) = merged (insert (lower req_name, s) R)"
  using assms
  by (auto simp: merge_requirement_def Let_def update_conv' merged_insert specifier_and_def
      split: option.splits)

lemma reachable_mono: "S \<subseteq> T \<Longrightarrow> reachable e S \<subseteq> reachable e T"
  by (auto simp: reachable_def)

lemma reachable_self: "S \<subseteq> reachable e S"
  by (auto simp: reachable_def)

lemma reachable_links:
  "reachable e (links_of e (manifest_lines e k)) \<subseteq> reachable e {k}"
proof
  fix x
  assume "x \<in> reachable e (links_of e (manifest_lines e k))"
  then obtain y where y: "y \<in> links_of e (manifest_lines e k)"
    and r: "(y, x) \<in> {(k, k'). k' \<in> links_of e (manifest_lines e k)}\<^sup>*"
    by (auto simp: reachable_def)
  from y have "(k, y) \<in> {(k, k'). k' \<in> links_of e (manifest_lines e k)}" by simp
  from this r have "(k, x) \<in> {(k, k'). k' \<in> links_of e (manifest_lines e k)}\<^sup>*"
    by (rule converse_rtrancl_into_rtrancl)
  then show "x \<in> reachable e {k}" by (simp add: reachable_def)
qed

lemma summary_refl: "summary e {} {} st st"
  by (simp add: summary_def)

lemma summary_same:
  assumes "visited_repos st' = visited_repos st" and "dependency_dict st' = dependency_dict st"
  shows "summary e {} {} st st'"
  using assms by (simp add: summary_def)

lemma summary_trans:
  assumes ab: "summary e S1 Q1 a b" and bc: "summary e S2 Q2 b c"
  shows "summary e (S1 \<union> S2) (Q1 \<union> Q2) a c"
proof -
  let ?A = "visited_repos a" and ?B = "visited_repos b" and ?C = "visited_repos c"
  from ab bc have sub: "?A \<subseteq> ?B" "?B \<subseteq> ?C" by (auto simp: summary_def)
  then have new: "?C - ?A = (?B - ?A) \<union> (?C - ?B)" by auto
  have 1: "?A \<subseteq> ?C" using sub by auto
  have 2: "S1 \<union> S2 \<subseteq> ?C" using ab bc sub by (auto simp: summary_def)
  have 3: "\<forall>k \<in> ?C - ?A. links_of e (manifest_lines e k) \<subseteq> ?C"
  proof
    fix k assume "k \<in> ?C - ?A"
    with new have "k \<in> ?B - ?A \<or> k \<in> ?C - ?B" by auto
    then show "links_of e (manifest_lines e k) \<subseteq> ?C"
    proof
      assume "k \<in> ?B - ?A"
      with ab have "links_of e (manifest_lines e k) \<subseteq> ?B" by (simp add: summary_def)
      with sub show ?thesis by auto
    next
      assume "k \<in> ?C - ?B"
      with bc show ?thesis by (simp add: summary_def)
    qed
  qed
  have 4: "?C - ?A \<subseteq> reachable e (S1 \<union> S2)"
  proof -
    from ab have "?B - ?A \<subseteq> reachable e S1" by (simp add: summary_def)
    moreover from bc have "?C - ?B \<subseteq> reachable e S2" by (simp add: summary_def)
    moreover have "reachable e S1 \<subseteq> reachable e (S1 \<union> S2)" by (rule reachable_mono) simp
    moreover have "reachable e S2 \<subseteq> reachable e (S1 \<union> S2)" by (rule reachable_mono) simp
    ultimately show ?thesis using new by blast
  qed
  have 5: "\<forall>R. map_of (dependency_dict a) = merged R \<longrightarrow>
           map_of (dependency_dict c)
             = merged (R \<union> (Q1 \<union> Q2) \<union> (\<Union>k \<in> ?C - ?A. requirements_of e (manifest_lines e k)))"
  proof (intro allI impI)
    fix R
    assume "map_of (dependency_dict a) = merged R"
    with ab have "map_of (dependency_dict b)
        = merged (R \<union> Q1 \<union> (\<Union>k \<in> ?B - ?A. requirements_of e (manifest_lines e k)))"
      by (simp add: summary_def)
    with bc have "map_of (dependency_dict c)
        = merged ((R \<union> Q1 \<union> (\<Union>k \<in> ?B - ?A. requirements_of e (manifest_lines e k)))
                  \<union> Q2 \<union> (\<Union>k \<in> ?C - ?B. requirements_of e (manifest_lines e k)))"
      by (simp add: summary_def)
    moreover have "(R \<union> Q1 \<union> (\<Union>k \<in> ?B - ?A. requirements_of e (manifest_lines e k)))
                  \<union> Q2 \<union> (\<Union>k \<in> ?C - ?B. requirements_of e (manifest_lines e k))
          = R \<union> (Q1 \<union> Q2) \<union> (\<Union>k \<in> ?C - ?A. requirements_of e (manifest_lines e k))"
      unfolding new by blast
    ultimately show "map_of (dependency_dict c)
             = merged (R \<union> (Q1 \<union> Q2) \<union> (\<Union>k \<in> ?C - ?A. requirements_of e (manifest_lines e k)))"
      by simp
  qed
  from 1 2 3 4 5 show ?thesis unfolding summary_def by blast
qed

lemma get_default_branch_value:
  "fst (get_default_branch e u st) = default_branch e u"
  by (simp add: default_branch_def get_default_branch_def Let_def
      split: option.splits response.splits json.splits)

lemma links_of_Nil [simp]: "links_of e [] = {}"
  by (simp add: links_of_def)

lemma requirements_of_Nil [simp]: "requirements_of e [] = {}"
  by (simp add: requirements_of_def)

lemma links_of_Cons:
  "links_of e (l # ls) = (case line_link e l of None \<Rightarrow> {} | Some k \<Rightarrow> {k}) \<union> links_of e ls"
  by (auto simp: links_of_def split: option.splits)

lemma requirements_of_Cons:
  "requirements_of e (l # ls) =
     (case line_requirement e l of None \<Rightarrow> {} | Some q \<Rightarrow> {q}) \<union> requirements_of e ls"
  by (auto simp: requirements_of_def split: option.splits)

lemma line_link_not_requirement:
  "line_link e l = Some k \<Longrightarrow> line_requirement e l = None"
  by (auto simp: line_link_def line_requirement_def Let_def
      split: if_splits requirement.splits)

lemma process_line_link:
  assumes "line_link e l = Some (gu, gc)"
  shows "process_line recurse e u l st = recurse gu gc st \<and> gu \<noteq> []"
  using assms
  by (auto simp: line_link_def process_line_def Let_def url_in_visited_def
      split: if_splits requirement.splits option.splits)

lemma process_line_requirement:
  assumes "line_requirement e l = Some (n, s)"
  shows "\<exists>req_name. lower req_name = n
           \<and> process_line recurse e u l st =
               Some (Return (), st\<lparr>dependency_dict :=
                                      merge_requirement req_name s (dependency_dict st)\<rparr>)"
  using assms
  by (auto simp: line_requirement_def process_line_def Let_def
      split: if_splits requirement.splits)

lemma process_line_other:
  assumes "line_link e l = None" and "line_requirement e l = None"
  shows "\<exists>st'. process_line recurse e u l st = Some (Return (), st')
           \<and> visited_repos st' = visited_repos st
           \<and> dependency_dict st' = dependency_dict st"
  using assms
  by (auto simp: line_link_def line_requirement_def process_line_def Let_def
      split: if_splits requirement.splits option.splits)

lemma summary_requirement:
  "summary e {} {(lower req_name, s)} st
     (st\<lparr>dependency_dict := merge_requirement req_name s (dependency_dict st)\<rparr>)"
  by (simp add: summary_def map_of_merge_lowered)

lemma process_line_summary:
  assumes rec: "\<forall>gu gc s res s'. (gu, gc) \<in> A \<longrightarrow> recurse gu gc s = Some (res, s')
                  \<longrightarrow> res = Return () \<and> summary e {(gu, gc)} {} s s'"
    and allowed: "links_of e [l] \<subseteq> A"
    and run: "process_line recurse e u l st = Some (res, st')"
  shows "res = Return () \<and> summary e (links_of e [l]) (requirements_of e [l]) st st'"
proof (cases "line_link e l")
  case (Some k)
  obtain gu gc where k: "k = (gu, gc)" by (cases k)
  from process_line_link [of e l gu gc recurse u st] Some k run
  have "recurse gu gc st = Some (res, st')" by auto
  moreover from allowed Some k have "(gu, gc) \<in> A" by (simp add: links_of_Cons)
  ultimately have "res = Return () \<and> summary e {(gu, gc)} {} st st'" using rec by blast
  with Some k line_link_not_requirement [OF Some] show ?thesis
    by (simp add: links_of_Cons requirements_of_Cons)
next
  case None
  show ?thesis
  proof (cases "line_requirement e l")
    case no: None
    from process_line_other [OF None no, of recurse u st] run
    have "res = Return ()" and "visited_repos st' = visited_repos st"
      and "dependency_dict st' = dependency_dict st"
      by auto
    with None no show ?thesis
      by (simp add: links_of_Cons requirements_of_Cons summary_same)
  next
    case (Some q)
    obtain n s where q: "q = (n, s)" by (cases q)
    from process_line_requirement [of e l n s recurse u st] Some q run
    obtain req_name where "lower req_name = n" and "res = Return ()"
      and "st' = st\<lparr>dependency_dict := merge_requirement req_name s (dependency_dict st)\<rparr>"
      by auto
    with None Some q summary_requirement [of e req_name s st] show ?thesis
      by (simp add: links_of_Cons requirements_of_Cons)
  qed
qed

lemma process_lines_summary:
  assumes rec: "\<forall>gu gc s res s'. (gu, gc) \<in> A \<longrightarrow> recurse gu gc s = Some (res, s')
                  \<longrightarrow> res = Return () \<and> summary e {(gu, gc)} {} s s'"
  shows "links_of e ls \<subseteq> A \<Longrightarrow> process_lines recurse e u ls st = Some (res, st')
         \<Longrightarrow> res = Return () \<and> summary e (links_of e ls) (requirements_of e ls) st st'"
proof (induction ls arbitrary: st)
  case Nil
  then show ?case by (simp add: summary_refl)
next
  case (Cons l ls)
  from Cons.prems(2) obtain r1 s1 where first: "process_line recurse e u l st = Some (r1, s1)"
    by (auto split: option.splits)
  from Cons.prems(1) have a1: "links_of e [l] \<subseteq> A" and a2: "links_of e ls \<subseteq> A"
    by (auto simp: links_of_Cons)
  from process_line_summary [OF rec a1 first]
  have r1: "r1 = Return ()"
    and s1: "summary e (links_of e [l]) (requirements_of e [l]) st s1"
    by auto
  with Cons.prems(2) first have rest: "process_lines recurse e u ls s1 = Some (res, st')" by simp
  from Cons.IH [OF a2 rest]
  have "res = Return ()" and s2: "summary e (links_of e ls) (requirements_of e ls) s1 st'"
    by auto
  moreover have "links_of e [l] \<union> links_of e ls = links_of e (l # ls)"
    by (simp add: links_of_Cons)
  moreover have "requirements_of e [l] \<union> requirements_of e ls = requirements_of e (l # ls)"
    by (simp add: requirements_of_Cons)
  ultimately show ?case using summary_trans [OF s1 s2] by simp
qed

lemma summary_cong_left:
  assumes "visited_repos a' = visited_repos a" and "dependency_dict a' = dependency_dict a"
  shows "summary e S Q a' b = summary e S Q a b"
  using assms by (simp add: summary_def)

lemma fetch_requirements_summary:
  assumes rec: "\<forall>gu gc s res s'. (gu, gc) \<in> links_of e (manifest_lines e (u, c))
                  \<longrightarrow> recurse gu gc s = Some (res, s')
                  \<longrightarrow> res = Return () \<and> summary e {(gu, gc)} {} s s'"
    and ok: "raw_requirements_url e u b \<noteq> None"
    and b: "resolved_commit e (u, c) = Some b"
    and run: "fetch_requirements recurse e u c b st = Some (res, st')"
  shows "res = Return ()
         \<and> summary e (links_of e (manifest_lines e (u, c)))
              (requirements_of e (manifest_lines e (u, c))) st st'"
proof -
  from ok obtain raw where raw: "raw_requirements_url e u b = Some raw" by auto
  let ?st1 = "emit (GetManifest (u, c) raw) st"
  show ?thesis
  proof (cases "http_get e raw")
    case ConnectionError
    with b raw have "manifest_lines e (u, c) = []" by (simp add: manifest_lines_def)
    moreover from run raw ConnectionError
    have "res = Return ()" and "visited_repos st' = visited_repos st"
      and "dependency_dict st' = dependency_dict st"
      by (auto simp: fetch_requirements_def Let_def)
    ultimately show ?thesis by (simp add: summary_same)
  next
    case (Response code body js)
    show ?thesis
    proof (cases "code = 200")
      case False
      with b raw Response have "manifest_lines e (u, c) = []" by (simp add: manifest_lines_def)
      moreover from run raw Response False
      have "res = Return ()" and "visited_repos st' = visited_repos st"
        and "dependency_dict st' = dependency_dict st"
        by (auto simp: fetch_requirements_def Let_def)
      ultimately show ?thesis by (simp add: summary_same)
    next
      case True
      with b raw Response have ml: "manifest_lines e (u, c) = splitlines body"
        by (simp add: manifest_lines_def)
      from run raw Response True obtain r2 s2 where
        ls: "process_lines recurse e u (splitlines body) ?st1 = Some (r2, s2)"
        by (auto simp: fetch_requirements_def Let_def split: option.splits)
      from ml have "links_of e (splitlines body) \<subseteq> links_of e (manifest_lines e (u, c))"
        by simp
      from process_lines_summary [OF rec this ls]
      have r2: "r2 = Return ()"
        and s: "summary e (links_of e (splitlines body)) (requirements_of e (splitlines body)) ?st1 s2"
        by auto
      from run raw Response True ls r2 have "res = Return ()" and "st' = s2"
        by (auto simp: fetch_requirements_def Let_def)
      moreover from s have "summary e (links_of e (splitlines body))
          (requirements_of e (splitlines body)) st s2"
        by (simp add: summary_cong_left [of ?st1 st])
      ultimately show ?thesis using ml by simp
    qed
  qed
qed

lemma visit_compose:
  assumes new: "k \<notin> visited_repos st"
    and v1: "visited_repos st1 = insert k (visited_repos st)"
    and d1: "dependency_dict st1 = dependency_dict st"
    and s: "summary e (links_of e (manifest_lines e k)) (requirements_of e (manifest_lines e k)) st1 st'"
  shows "summary e {k} {} st st'"
proof -
  let ?V = "visited_repos st" and ?V' = "visited_repos st'"
  let ?L = "links_of e (manifest_lines e k)" and ?Q = "requirements_of e (manifest_lines e k)"
  from s v1 have sub1: "insert k ?V \<subseteq> ?V'" by (simp add: summary_def)
  from sub1 new have newset: "?V' - ?V = insert k (?V' - insert k ?V)" by auto
  have 1: "?V \<subseteq> ?V'" using sub1 by auto
  have 2: "{k} \<subseteq> ?V'" using sub1 by auto
  have 3: "\<forall>x \<in> ?V' - ?V. links_of e (manifest_lines e x) \<subseteq> ?V'"
  proof
    fix x assume "x \<in> ?V' - ?V"
    with newset have "x = k \<or> x \<in> ?V' - insert k ?V" by auto
    then show "links_of e (manifest_lines e x) \<subseteq> ?V'"
    proof
      assume "x = k"
      with s show ?thesis by (simp add: summary_def)
    next
      assume "x \<in> ?V' - insert k ?V"
      with s v1 show ?thesis by (simp add: summary_def)
    qed
  qed
  have 4: "?V' - ?V \<subseteq> reachable e {k}"
  proof -
    from s v1 have "?V' - insert k ?V \<subseteq> reachable e ?L" by (simp add: summary_def)
    with reachable_links [of e k] have "?V' - insert k ?V \<subseteq> reachable e {k}" by blast
    moreover have "k \<in> reachable e {k}" using reachable_self [of "{k}" e] by simp
    ultimately show ?thesis using newset by auto
  qed
  have 5: "\<forall>R. map_of (dependency_dict st) = merged R \<longrightarrow>
           map_of (dependency_dict st')
             = merged (R \<union> {} \<union> (\<Union>x \<in> ?V' - ?V. requirements_of e (manifest_lines e x)))"
  proof (intro allI impI)
    fix R
    assume "map_of (dependency_dict st) = merged R"
    with d1 have "map_of (dependency_dict st1) = merged R" by simp
    with s v1 have "map_of (dependency_dict st')
        = merged (R \<union> ?Q \<union> (\<Union>x \<in> ?V' - insert k ?V. requirements_of e (manifest_lines e x)))"
      by (simp add: summary_def)
    moreover have "(\<Union>x \<in> ?V' - ?V. requirements_of e (manifest_lines e x))
        = (\<Union>x \<in> insert k (?V' - insert k ?V). requirements_of e (manifest_lines e x))"
      using newset
      by (rule arg_cong [where f = "\<lambda>A. \<Union>x \<in> A. requirements_of e (manifest_lines e x)"])
    then have "R \<union> ?Q \<union> (\<Union>x \<in> ?V' - insert k ?V. requirements_of e (manifest_lines e x))
        = R \<union> {} \<union> (\<Union>x \<in> ?V' - ?V. requirements_of e (manifest_lines e x))"
      by blast
    ultimately show "map_of (dependency_dict st')
             = merged (R \<union> {} \<union> (\<Union>x \<in> ?V' - ?V. requirements_of e (manifest_lines e x)))"
      by simp
  qed
  from 1 2 3 4 5 show ?thesis unfolding summary_def by blast
qed

lemma summary_visited:
  assumes "k \<in> visited_repos st"
  shows "summary e {k} {} st st"
  using assms by (simp add: summary_def)

lemma visit_repo_summary:
  assumes rec: "\<forall>gu gc s res s'. (gu, gc) \<in> links_of e (manifest_lines e (u, c))
                  \<longrightarrow> recurse gu gc s = Some (res, s')
                  \<longrightarrow> res = Return () \<and> summary e {(gu, gc)} {} s s'"
    and ok: "accepted_url e u" and u: "u \<noteq> []"
    and run: "visit_repo recurse e u c st = Some (res, st')"
  shows "res = Return () \<and> summary e {(u, c)} {} st st'"
proof (cases "(u, c) \<in> visited_repos st")
  case True
  with run u have "res = Return ()" and "st' = st" by (auto simp: visit_repo_def Let_def)
  with True show ?thesis by (simp add: summary_visited)
next
  case False
  let ?k = "(u, c)"
  let ?st1 = "emit (MarkVisited ?k) (st\<lparr>visited_repos := insert ?k (visited_repos st)\<rparr>)"
  let ?L = "links_of e (manifest_lines e ?k)" and ?Q = "requirements_of e (manifest_lines e ?k)"
  from ok have raw_ok: "\<And>b. raw_requirements_url e u b \<noteq> None"
    by (simp add: accepted_url_def)
  have "res = Return () \<and> summary e ?L ?Q ?st1 st'"
  proof (cases "c = None \<or> c = Some []")
    case given: False
    then have b: "resolved_commit e ?k = Some (the c)"
      by (auto simp: resolved_commit_def)
    from run False u given
    have "fetch_requirements recurse e u c (the c) ?st1 = Some (res, st')"
      by (auto simp: visit_repo_def Let_def)
    from fetch_requirements_summary [OF rec raw_ok b this] show ?thesis .
  next
    case unset: True
    obtain r st2 where g: "get_default_branch e u ?st1 = (r, st2)"
      by (cases "get_default_branch e u ?st1")
    then have q: "quiet_step ?st1 st2" by (rule get_default_branch_quiet)
    from g get_default_branch_value [of e u ?st1] have r: "default_branch e u = r" by simp
    show ?thesis
    proof (cases r)
      case Raise
      with g have "url_path e u = None" by (auto dest: get_default_branch_raises)
      with ok show ?thesis by (simp add: accepted_url_def)
    next
      case (Return branch)
      show ?thesis
      proof (cases "truthy branch")
        case no: False
        with unset r Return have "manifest_lines e ?k = []"
          by (auto simp: manifest_lines_def resolved_commit_def)
        moreover from run False u unset g Return no
        have "res = Return ()" and "st' = emit (Print (SkippingRepository u)) st2"
          by (auto simp: visit_repo_def Let_def)
        moreover from q have "visited_repos st2 = visited_repos ?st1"
          and "dependency_dict st2 = dependency_dict ?st1"
          by (simp_all add: quiet_step_def)
        ultimately show ?thesis by (simp add: summary_same)
      next
        case True
        with unset r Return have b: "resolved_commit e ?k = Some (format_commit e branch)"
          by (auto simp: resolved_commit_def)
        from run False u unset g Return True
        have "fetch_requirements recurse e u c (format_commit e branch) st2 = Some (res, st')"
          by (auto simp: visit_repo_def Let_def)
        from fetch_requirements_summary [OF rec raw_ok b this]
        have "res = Return ()" and "summary e ?L ?Q st2 st'" by auto
        moreover from q have "visited_repos st2 = visited_repos ?st1"
          and "dependency_dict st2 = dependency_dict ?st1"
          by (simp_all add: quiet_step_def)
        ultimately show ?thesis by (simp add: summary_cong_left [of st2 ?st1])
      qed
    qed
  qed
  then have "res = Return ()" and s: "summary e ?L ?Q ?st1 st'" by auto
  have "summary e {?k} {} st st'"
    by (rule visit_compose [OF False _ _ s]) simp_all
  with \<open>res = Return ()\<close> show ?thesis by simp
qed

lemma line_link_nonempty: "line_link e l = Some (gu, gc) \<Longrightarrow> gu \<noteq> []"
  by (auto simp: line_link_def Let_def split: if_splits requirement.splits option.splits)

lemma links_of_nonempty: "(gu, gc) \<in> links_of e ls \<Longrightarrow> gu \<noteq> []"
  by (auto simp: links_of_def List.map_filter_def dest: line_link_nonempty)

lemma reachable_from_link:
  assumes "k' \<in> links_of e (manifest_lines e k)"
  shows "reachable e {k'} \<subseteq> reachable e {k}"
proof -
  from assms have "reachable e {k'} \<subseteq> reachable e (links_of e (manifest_lines e k))"
    by (intro reachable_mono) simp
  with reachable_links [of e k] show ?thesis by blast
qed

lemma process_requirements_from_repo_summary:
  "u \<noteq> [] \<Longrightarrow> \<forall>k \<in> reachable e {(u, c)}. accepted_url e (fst k)
   \<Longrightarrow> process_requirements_from_repo fuel e u c st = Some (res, st')
   \<Longrightarrow> res = Return () \<and> summary e {(u, c)} {} st st'"
proof (induction fuel arbitrary: u c st res st')
  case 0
  then show ?case by simp
next
  case (Suc fuel)
  have rec: "\<forall>gu gc s res s'. (gu, gc) \<in> links_of e (manifest_lines e (u, c))
      \<longrightarrow> process_requirements_from_repo fuel e gu gc s = Some (res, s')
      \<longrightarrow> res = Return () \<and> summary e {(gu, gc)} {} s s'"
  proof (intro allI impI)
    fix gu gc s res s'
    assume link: "(gu, gc) \<in> links_of e (manifest_lines e (u, c))"
      and call: "process_requirements_from_repo fuel e gu gc s = Some (res, s')"
    from link have "gu \<noteq> []" by (rule links_of_nonempty)
    moreover from reachable_from_link [OF link] Suc.prems(2)
    have "\<forall>k \<in> reachable e {(gu, gc)}. accepted_url e (fst k)" by blast
    ultimately show "res = Return () \<and> summary e {(gu, gc)} {} s s'"
      using call by (rule Suc.IH)
  qed
  have "(u, c) \<in> reachable e {(u, c)}" using reachable_self [of "{(u, c)}" e] by simp
  with Suc.prems(2) have a: "accepted_url e u" by force
  from Suc.prems(3)
  have "visit_repo (\<lambda>u c. process_requirements_from_repo fuel e u c) e u c st = Some (res, st')"
    by simp
  from visit_repo_summary [OF rec a Suc.prems(1) this] show ?case .
qed

lemma process_entry_summary:
  assumes ok: "\<forall>k \<in> reachable e (set_option (entry_key repo)). accepted_url e (fst k)"
    and run: "process_entry fuel e repo st = Some (Return x, st')"
  shows "summary e (set_option (entry_key repo)) {} st st'"
proof (cases "entry_key repo")
  case None
  with run have "visited_repos st' = visited_repos st \<and> dependency_dict st' = dependency_dict st"
    by (auto simp: process_entry_def entry_key_def split: json.splits option.splits if_splits)
  with None show ?thesis by (simp add: summary_same)
next
  case (Some k)
  then obtain items u commit_hash where
    repo: "repo = JObj items" "map_of items ''repo'' = Some (JStr u)"
      "entry_commit items = Some commit_hash" "u \<noteq> []" "k = (u, Some commit_hash)"
    by (auto simp: entry_key_def split: json.splits option.splits if_splits)
  with run
  have call: "process_requirements_from_repo fuel e u (Some commit_hash) st = Some (Return x, st')"
    by (simp add: process_entry_def)
  from ok Some repo have "\<forall>k \<in> reachable e {(u, Some commit_hash)}. accepted_url e (fst k)"
    by simp
  from process_requirements_from_repo_summary [OF repo(4) this call] Some repo
  show ?thesis by simp
qed

lemma process_repos_summary:
  "\<forall>k \<in> reachable e (set (List.map_filter entry_key repos)). accepted_url e (fst k)
   \<Longrightarrow> process_repos fuel e repos st = Some (Return x, st')
   \<Longrightarrow> summary e (set (List.map_filter entry_key repos)) {} st st'"
proof (induction repos arbitrary: st)
  case Nil
  then show ?case by (simp add: summary_refl)
next
  case (Cons repo repos)
  from Cons.prems(2) obtain y s1 where
    first: "process_entry fuel e repo st = Some (Return y, s1)"
    and others: "process_repos fuel e repos s1 = Some (Return x, st')"
    by (auto split: option.splits result.splits)
  have split_keys: "set_option (entry_key repo) \<union> set (List.map_filter entry_key repos)
      = set (List.map_filter entry_key (repo # repos))"
    by (auto split: option.splits)
  have "reachable e (set_option (entry_key repo))
      \<subseteq> reachable e (set (List.map_filter entry_key (repo # repos)))"
    by (rule reachable_mono) (use split_keys in blast)
  with Cons.prems(1)
  have ok1: "\<forall>k \<in> reachable e (set_option (entry_key repo)). accepted_url e (fst k)" by blast
  have "reachable e (set (List.map_filter entry_key repos))
      \<subseteq> reachable e (set (List.map_filter entry_key (repo # repos)))"
    by (rule reachable_mono) (use split_keys in blast)
  with Cons.prems(1)
  have ok2: "\<forall>k \<in> reachable e (set (List.map_filter entry_key repos)). accepted_url e (fst k)"
    by blast
  from process_entry_summary [OF ok1 first]
  have s1: "summary e (set_option (entry_key repo)) {} st s1" .
  from Cons.IH [OF ok2 others]
  have s2: "summary e (set (List.map_filter entry_key repos)) {} s1 st'" .
  from summary_trans [OF s1 s2] split_keys show ?case by simp
qed

lemma reachable_least:
  assumes roots: "S \<subseteq> V" and closed: "\<forall>k \<in> V. links_of e (manifest_lines e k) \<subseteq> V"
  shows "reachable e S \<subseteq> V"
proof
  fix x
  assume "x \<in> reachable e S"
  then obtain r where r: "r \<in> S"
    and path: "(r, x) \<in> {(k, k'). k' \<in> links_of e (manifest_lines e k)}\<^sup>*"
    by (auto simp: reachable_def)
  from path show "x \<in> V"
  proof (induction rule: rtrancl_induct)
    case base
    from r roots show ?case by auto
  next
    case (step y z)
    with closed show ?case by auto
  qed
qed

lemma final_dependency_dict:
  assumes ok: "\<forall>k \<in> reachable e (input_keys (Some (JArr repos))). accepted_url e (fst k)"
    and run: "consolidate_requirements fuel e (Some (JArr repos)) = Some (Written ls, st)"
  shows "map_of (dependency_dict st)
         = merged (\<Union>k \<in> reachable e (input_keys (Some (JArr repos))).
                      requirements_of e (manifest_lines e k))"
proof -
  let ?S = "set (List.map_filter entry_key repos)"
  have keys: "input_keys (Some (JArr repos)) = ?S" by (simp add: input_keys_def)
  from run obtain x s where
    loop: "process_repos fuel e repos initial_state = Some (Return x, s)"
    and st: "st = emit (Print Generated) s"
    by (auto simp: consolidate_requirements_def split: option.splits result.splits)
  from ok keys have "\<forall>k \<in> reachable e ?S. accepted_url e (fst k)" by simp
  from process_repos_summary [OF this loop]
  have sum: "summary e ?S {} initial_state s" .
  let ?V = "visited_repos s"
  have init: "visited_repos initial_state = {}" "map_of (dependency_dict initial_state) = merged {}"
    by (simp_all add: initial_state_def merged_empty)
  from sum init have roots: "?S \<subseteq> ?V"
    and closed: "\<forall>k \<in> ?V. links_of e (manifest_lines e k) \<subseteq> ?V"
    and within: "?V \<subseteq> reachable e ?S"
    by (simp_all add: summary_def)
  from reachable_least [OF roots closed] within have V: "?V = reachable e ?S" by auto
  from sum init(2) have "map_of (dependency_dict s)
      = merged ({} \<union> {} \<union> (\<Union>k \<in> ?V - visited_repos initial_state.
                               requirements_of e (manifest_lines e k)))"
    unfolding summary_def by blast
  with init(1) V st keys show ?thesis by simp
qed

lemma links_of_set:
  "links_of e ls = {k. \<exists>l \<in> set ls. line_link e l = Some k}"
  by (force simp: links_of_def List.map_filter_def)

lemma requirements_of_set:
  "requirements_of e ls = {q. \<exists>l \<in> set ls. line_requirement e l = Some q}"
  by (force simp: requirements_of_def List.map_filter_def)

lemma same_lines_same_links:
  assumes "parse_requirement e1 = parse_requirement e2" and "set ls1 = set ls2"
  shows "links_of e1 ls1 = links_of e2 ls2 \<and> requirements_of e1 ls1 = requirements_of e2 ls2"
proof -
  have "line_link e1 = line_link e2"
    by (rule ext) (simp add: line_link_def Let_def fun_cong [OF assms(1)])
  moreover have "line_requirement e1 = line_requirement e2"
    by (rule ext) (simp add: line_requirement_def Let_def fun_cong [OF assms(1)])
  ultimately show ?thesis using assms(2) by (simp add: links_of_set requirements_of_set)
qed

text \<open>
  C6, amended. Take two runs whose inputs hold the same entries in any order, in
  environments with the same requirement parser whose manifests hold the same
  lines in any order, and let \<^verbatim>\<open>urlparse\<close> and \<^verbatim>\<open>urljoin\<close> raise on none of
  the repositories that can be reached from the input, so that no exception
  cuts the lines of a manifest short. If both runs write
  their file, their final \<^verbatim>\<open>dependency_dict\<close> is the same mapping from names to
  specifiers: for each name, the clauses of all requirements for it in the
  manifests of the repositories that can be reached from the input
  (\<open>final_dependency_dict\<close>).
\<close>

theorem order_does_not_matter:
  assumes "\<forall>k \<in> reachable e1 (input_keys (Some (JArr repos1))). accepted_url e1 (fst k)"
    and "\<forall>k \<in> reachable e2 (input_keys (Some (JArr repos2))). accepted_url e2 (fst k)"
    and "parse_requirement e1 = parse_requirement e2"
    and "\<forall>k. set (manifest_lines e1 k) = set (manifest_lines e2 k)"
    and "set repos1 = set repos2"
    and "consolidate_requirements fuel1 e1 (Some (JArr repos1)) = Some (Written ls1, st1)"
    and "consolidate_requirements fuel2 e2 (Some (JArr repos2)) = Some (Written ls2, st2)"
  shows "map_of (dependency_dict st1) = map_of (dependency_dict st2)"
proof -
  have same: "\<And>k. links_of e1 (manifest_lines e1 k) = links_of e2 (manifest_lines e2 k)
      \<and> requirements_of e1 (manifest_lines e1 k) = requirements_of e2 (manifest_lines e2 k)"
    using assms(3,4) same_lines_same_links by blast
  have roots: "input_keys (Some (JArr repos1)) = input_keys (Some (JArr repos2))"
    using assms(5) by (simp add: input_keys_def List.map_filter_def)
  have "reachable e1 (input_keys (Some (JArr repos1)))
      = reachable e2 (input_keys (Some (JArr repos2)))"
    using same roots by (simp add: reachable_def)
  with same final_dependency_dict [OF assms(1,6)] final_dependency_dict [OF assms(2,7)]
  show ?thesis by simp
qed

text \<open>
  C6, as the claim states it, fails. Both manifests refer to \<^verbatim>\<open>https://[\<close>, on
  which \<^verbatim>\<open>urlparse\<close> raises \<^verbatim>\<open>ValueError\<close> in \<^verbatim>\<open>get_default_branch\<close>, outside
  every \<^verbatim>\<open>try\<close> of the callee. The exception ends the loop over the lines of
  the manifest that is read first (line 89 catches it), and the key is marked
  visited by then, so the manifest read second skips the reference and goes on.
  With a/b first its line \<^verbatim>\<open>foo>=1.0\<close> is never read; with c/d first it is.
\<close>

theorem order_matters_after_exception:
  "map_option (dependency_dict \<circ> snd)
     (consolidate_requirements 2 bracket_env (Some (JArr [a_b_entry, c_d_entry])))
     = Some []
   \<and> map_option (dependency_dict \<circ> snd)
       (consolidate_requirements 2 bracket_env (Some (JArr [c_d_entry, a_b_entry])))
     = Some [(''foo'', {''>=1.0''})]"
  by code_simp

lemma foo_twice_run:
  "consolidate_requirements 2 foo_twice_env (Some (JArr [a_b_entry, c_d_entry])) =
   Some (Written [''foo<2.0,>=1.0''],
         \<lparr>dependency_dict = [(''foo'', {''>=1.0'', ''<2.0''})],
          url_requirements = {},
          visited_repos = {(c_d_url, Some ''main''), (a_b_url, Some ''main'')},
          trace = [Print Generated,
                   GetManifest (c_d_url, Some ''main'') c_d_main_raw,
                   MarkVisited (c_d_url, Some ''main''),
                   GetManifest (a_b_url, Some ''main'') a_b_main_raw,
                   MarkVisited (a_b_url, Some ''main'')]\<rparr>)"
  by code_simp

lemma manifest_lines_same_set:
  assumes up: "url_path e1 = url_path e2" and uj: "urljoin e1 = urljoin e2"
    and so: "str_of e1 = str_of e2"
    and api: "\<And>owner name. http_get e1 (api_url owner name) = http_get e2 (api_url owner name)"
    and raw: "\<And>x. http_get e1 x = http_get e2 x
                \<or> (\<exists>b1 b2 j1 j2. http_get e1 x = Response 200 b1 j1
                       \<and> http_get e2 x = Response 200 b2 j2
                       \<and> set (splitlines b1) = set (splitlines b2))"
  shows "set (manifest_lines e1 k) = set (manifest_lines e2 k)"
proof -
  obtain u c where k: "k = (u, c)" by (cases k)
  have db: "default_branch e1 u = default_branch e2 u"
    by (simp add: default_branch_def get_default_branch_def Let_def up api
        split: option.splits)
  have fc: "\<And>v. format_commit e1 v = format_commit e2 v"
    by (simp add: format_commit_def so split: json.splits)
  have rc: "resolved_commit e1 k = resolved_commit e2 k"
    by (simp add: resolved_commit_def k db fc split: result.splits)
  have ru: "\<And>b. raw_requirements_url e1 u b = raw_requirements_url e2 u b"
    by (simp add: raw_requirements_url_def uj)
  show ?thesis
  proof (cases "resolved_commit e2 k")
    case None
    with rc show ?thesis by (simp add: manifest_lines_def)
  next
    case (Some b)
    show ?thesis
    proof (cases "raw_requirements_url e2 u b")
      case None
      with rc Some ru k show ?thesis by (simp add: manifest_lines_def)
    next
      case r: (Some x)
      from rc Some ru r k have m1: "manifest_lines e1 k =
          (case http_get e1 x of ConnectionError \<Rightarrow> []
           | Response code body js \<Rightarrow> if code = 200 then splitlines body else [])"
        by (simp add: manifest_lines_def)
      from Some r k have m2: "manifest_lines e2 k =
          (case http_get e2 x of ConnectionError \<Rightarrow> []
           | Response code body js \<Rightarrow> if code = 200 then splitlines body else [])"
        by (simp add: manifest_lines_def)
      from raw [of x] show ?thesis
      proof
        assume "http_get e1 x = http_get e2 x"
        with m1 m2 show ?thesis by simp
      next
        assume "\<exists>b1 b2 j1 j2. http_get e1 x = Response 200 b1 j1
                       \<and> http_get e2 x = Response 200 b2 j2
                       \<and> set (splitlines b1) = set (splitlines b2)"
        with m1 m2 show ?thesis by auto
      qed
    qed
  qed
qed

lemma permuted_lines:
  "set (splitlines ''foo>=1.0\<newline>git+https://github.com/c/d@main'')
   = set (splitlines ''git+https://github.com/c/d@main\<newline>foo>=1.0'')"
  by code_simp

lemma foo_twice_same_lines:
  "set (manifest_lines foo_twice_env k) = set (manifest_lines foo_twice_permuted k)"
proof (rule manifest_lines_same_set)
  show "url_path foo_twice_env = url_path foo_twice_permuted"
    by (simp add: foo_twice_env_def foo_twice_permuted_def example_env_def)
  show "urljoin foo_twice_env = urljoin foo_twice_permuted"
    by (simp add: foo_twice_env_def foo_twice_permuted_def example_env_def)
  show "str_of foo_twice_env = str_of foo_twice_permuted"
    by (simp add: foo_twice_env_def foo_twice_permuted_def example_env_def)
  show "http_get foo_twice_env (api_url owner name) = http_get foo_twice_permuted (api_url owner name)"
    for owner name
    by (simp add: foo_twice_env_def foo_twice_permuted_def example_env_def
        api_url_def a_b_main_raw_def c_d_main_raw_def)
  show "http_get foo_twice_env x = http_get foo_twice_permuted x
        \<or> (\<exists>b1 b2 j1 j2. http_get foo_twice_env x = Response 200 b1 j1
               \<and> http_get foo_twice_permuted x = Response 200 b2 j2
               \<and> set (splitlines b1) = set (splitlines b2))"
    for x
    using permuted_lines
    by (simp add: foo_twice_env_def foo_twice_permuted_def example_env_def manifest_def)
qed

lemma foo_twice_permuted_run:
  "consolidate_requirements 2 foo_twice_permuted (Some (JArr [c_d_entry, a_b_entry])) =
   Some (Written [''foo<2.0,>=1.0''],
         \<lparr>dependency_dict = [(''foo'', {''<2.0'', ''>=1.0''})],
          url_requirements = {},
          visited_repos = {(a_b_url, Some ''main''), (c_d_url, Some ''main'')},
          trace = [Print Generated,
                   GetManifest (a_b_url, Some ''main'') a_b_main_raw,
                   MarkVisited (a_b_url, Some ''main''),
                   GetManifest (c_d_url, Some ''main'') c_d_main_raw,
                   MarkVisited (c_d_url, Some ''main'')]\<rparr>)"
  by code_simp

lemma a_b_c_d_accepted:
  "accepted_url (example_env pages) a_b_url \<and> accepted_url (example_env pages) c_d_url"
proof -
  have "example_url_path a_b_url \<noteq> None \<and> example_url_path c_d_url \<noteq> None"
    by code_simp
  moreover have
    "\<not> unclosed_bracket (replace ''github.com'' ''raw.githubusercontent.com'' a_b_url @ ''/'')
     \<and> \<not> unclosed_bracket (replace ''github.com'' ''raw.githubusercontent.com'' c_d_url @ ''/'')"
    by code_simp
  ultimately show ?thesis
    by (simp add: accepted_url_def raw_requirements_url_def Let_def example_env_def
        example_urljoin_def)
qed

lemma foo_twice_links:
  "input_keys (Some (JArr [a_b_entry, c_d_entry])) \<subseteq> cycle_keys
   \<and> input_keys (Some (JArr [c_d_entry, a_b_entry])) \<subseteq> cycle_keys
   \<and> links_of foo_twice_env (manifest_lines foo_twice_env (a_b_url, Some ''main'')) \<subseteq> cycle_keys
   \<and> links_of foo_twice_env (manifest_lines foo_twice_env (c_d_url, Some ''main'')) \<subseteq> cycle_keys
   \<and> links_of foo_twice_permuted (manifest_lines foo_twice_permuted (a_b_url, Some ''main''))
       \<subseteq> cycle_keys
   \<and> links_of foo_twice_permuted (manifest_lines foo_twice_permuted (c_d_url, Some ''main''))
       \<subseteq> cycle_keys"
  by code_simp

lemma foo_twice_reachable:
  "reachable foo_twice_env (input_keys (Some (JArr [a_b_entry, c_d_entry]))) \<subseteq> cycle_keys
   \<and> reachable foo_twice_permuted (input_keys (Some (JArr [c_d_entry, a_b_entry])))
       \<subseteq> cycle_keys"
  using foo_twice_links by (intro conjI reachable_least) (simp_all add: cycle_keys_def)

lemma foo_twice_accepted:
  "accepted_url foo_twice_env a_b_url \<and> accepted_url foo_twice_env c_d_url
   \<and> accepted_url foo_twice_permuted a_b_url \<and> accepted_url foo_twice_permuted c_d_url"
  using a_b_c_d_accepted by (simp add: foo_twice_env_def foo_twice_permuted_def)

theorem order_does_not_matter_witness:
  "reachable foo_twice_env (input_keys (Some (JArr [a_b_entry, c_d_entry]))) \<subseteq> cycle_keys
   \<and> reachable foo_twice_permuted (input_keys (Some (JArr [c_d_entry, a_b_entry])))
       \<subseteq> cycle_keys
   \<and> accepted_url foo_twice_env a_b_url \<and> accepted_url foo_twice_env c_d_url
   \<and> accepted_url foo_twice_permuted a_b_url \<and> accepted_url foo_twice_permuted c_d_url
   \<and> parse_requirement foo_twice_env = parse_requirement foo_twice_permuted
   \<and> (\<forall>k. set (manifest_lines foo_twice_env k) = set (manifest_lines foo_twice_permuted k))
   \<and> set [a_b_entry, c_d_entry] = set [c_d_entry, a_b_entry]
   \<and> (\<exists>ls1 st1 ls2 st2.
         consolidate_requirements 2 foo_twice_env (Some (JArr [a_b_entry, c_d_entry]))
           = Some (Written ls1, st1)
         \<and> consolidate_requirements 2 foo_twice_permuted (Some (JArr [c_d_entry, a_b_entry]))
           = Some (Written ls2, st2)
         \<and> map_of (dependency_dict st1) = map_of (dependency_dict st2)
         \<and> map_of (dependency_dict st1) ''foo'' = Some {''>=1.0'', ''<2.0''})"
proof -
  have a1: "\<forall>k \<in> reachable foo_twice_env (input_keys (Some (JArr [a_b_entry, c_d_entry]))).
      accepted_url foo_twice_env (fst k)"
    using foo_twice_reachable foo_twice_accepted by (auto simp: cycle_keys_def)
  have a2: "\<forall>k \<in> reachable foo_twice_permuted (input_keys (Some (JArr [c_d_entry, a_b_entry]))).
      accepted_url foo_twice_permuted (fst k)"
    using foo_twice_reachable foo_twice_accepted by (auto simp: cycle_keys_def)
  have p: "parse_requirement foo_twice_env = parse_requirement foo_twice_permuted"
    by (simp add: foo_twice_env_def foo_twice_permuted_def example_env_def)
  have m: "\<forall>k. set (manifest_lines foo_twice_env k) = set (manifest_lines foo_twice_permuted k)"
    using foo_twice_same_lines by blast
  have s: "set [a_b_entry, c_d_entry] = set [c_d_entry, a_b_entry]" by auto
  note same = order_does_not_matter [OF a1 a2 p m s foo_twice_run foo_twice_permuted_run]
  have "map_of (dependency_dict
          \<lparr>dependency_dict = [(''foo'', {''>=1.0'', ''<2.0''})],
           url_requirements = {},
           visited_repos = {(c_d_url, Some ''main''), (a_b_url, Some ''main'')},
           trace = [Print Generated,
                    GetManifest (c_d_url, Some ''main'') c_d_main_raw,
                    MarkVisited (c_d_url, Some ''main''),
                    GetManifest (a_b_url, Some ''main'') a_b_main_raw,
                    MarkVisited (a_b_url, Some ''main'')]\<rparr>) ''foo''
        = Some {''>=1.0'', ''<2.0''}"
    by simp
  with same foo_twice_run foo_twice_permuted_run have
    "\<exists>ls1 st1 ls2 st2.
         consolidate_requirements 2 foo_twice_env (Some (JArr [a_b_entry, c_d_entry]))
           = Some (Written ls1, st1)
         \<and> consolidate_requirements 2 foo_twice_permuted (Some (JArr [c_d_entry, a_b_entry]))
           = Some (Written ls2, st2)
         \<and> map_of (dependency_dict st1) = map_of (dependency_dict st2)
         \<and> map_of (dependency_dict st1) ''foo'' = Some {''>=1.0'', ''<2.0''}"
    by blast
  with foo_twice_reachable foo_twice_accepted p m s show ?thesis by blast
qed

end
